theory Spec2Isabelle
  imports Complex_Main "HOL-Library.Word"
begin

section \<open>Settings of the touch appliance\<close>

text \<open>
  The control loop of \<^verbatim>\<open>DMART_pico_code_v2.py\<close> as HOL functions. Module globals
  become fields of one record that every function takes and returns; hardware effects
  are appended to an event log; Python exceptions are values of a sum type. Clock values
  and durations are Python floats in the source and real numbers here.
\<close>

definition LCD_COLS :: nat where
  "LCD_COLS = 20"


definition BAT_FULL_V :: real where
  "BAT_FULL_V = 4.2"

definition BAT_EMPTY_V :: real where
  "BAT_EMPTY_V = 3.2"

definition BAT_DIVIDER :: real where
  "BAT_DIVIDER = 3"

definition BAT_UPDATE_S :: real where
  "BAT_UPDATE_S = 30"

definition POWER_OFF_HOLD_S :: real where
  "POWER_OFF_HOLD_S = 5"

definition EASTER_EGG_SEQ :: "nat list" where
  "EASTER_EGG_SEQ = [0, 2, 4]"

definition EASTER_EGG_MSG :: string where
  "EASTER_EGG_MSG = ''You found the secret!''"

datatype py_error = OSError | TypeError | OverflowError | IndexError | OtherError

section \<open>Line formatting\<close>

text \<open>
  \<^verbatim>\<open>" " * n\<close>: a run of blanks.
\<close>

definition spaces :: "nat \<Rightarrow> string" where
  "spaces n = replicate n (CHR '' '')"

text \<open>
  \<^verbatim>\<open>_fit_line(s, width, center=False)\<close>. The argument is a string or \<^verbatim>\<open>None\<close>
  (\<open>None\<close> here), and \<^verbatim>\<open>None\<close> reads as the empty string. The width is a column
  count, so a natural number; the subtractions below are guarded by the length test
  before them, as in the source.
\<close>

definition fit_line :: "string option \<Rightarrow> nat \<Rightarrow> bool \<Rightarrow> string" where
  "fit_line s0 width center =
     (let s = (case s0 of None \<Rightarrow> [] | Some t \<Rightarrow> t) in
      if length s > width then take width s
      else if center then
        (let pad_total = width - length s;
             left = pad_total div 2;
             right = pad_total - left
         in spaces left @ s @ spaces right)
      else s @ spaces (width - length s))"

text \<open>
  \<^verbatim>\<open>_lcd_line(left, right="", width=LCD_COLS)\<close>. \<^verbatim>\<open>not right\<close> holds for
  \<^verbatim>\<open>None\<close> and for the empty string. With a right label, \<^verbatim>\<open>len(left)\<close> is taken
  of the argument as it comes: on \<^verbatim>\<open>None\<close> Python raises \<^verbatim>\<open>TypeError\<close>. The gap
  is a Python integer and may be negative.
\<close>

definition lcd_line :: "string option \<Rightarrow> string option \<Rightarrow> nat \<Rightarrow> py_error + string" where
  "lcd_line left right width =
     (case right of
        None \<Rightarrow> Inr (fit_line left width False)
      | Some r \<Rightarrow>
          if r = [] then Inr (fit_line left width False)
          else (case left of
                  None \<Rightarrow> Inl TypeError
                | Some l \<Rightarrow>
                    (let gap = int width - int (length l) - int (length r) in
                     if gap < 1 then Inr (take width (l @ '' '' @ r))
                     else Inr (l @ spaces (nat gap) @ r))))"

section \<open>Device state and hardware effects\<close>

text \<open>
  The closed sets of names the source writes as string literals: the keys of
  \<^verbatim>\<open>_EYES\<close> and of \<^verbatim>\<open>_MOUTHS\<close>. An expression is one name (both eyes alike) or a
  pair (left, right).
\<close>

datatype eye = EyeCenter | EyeLeft | EyeRight | EyeBlink | EyeHappy | EyeSurprised
  | EyeSleepy | EyeWinkShut

datatype mouth = MouthNeutral | MouthSmile | MouthOpen

datatype expr = Sym eye | Pair eye eye

text \<open>
  What reaches the hardware, in order. The display driver is taken at its interface
  (clear, cursor, character, glyph slot, backlight); \<^verbatim>\<open>time.sleep\<close> is an event as
  well, so that a dwell can be placed among the others.
\<close>

datatype hw = LcdClear | LcdSetCursor nat nat | LcdData nat | LcdCreateChar nat "nat list"
  | LcdBacklight bool | Sleep real | AmpEn bool | AudioPlay string | AudioStop
  | NvmWrite "8 word list" | DeepSleep

type_synonym eye_state = "eye \<times> eye option \<times> mouth \<times> string \<times> string"

text \<open>
  The module globals, and the environment the code reads: the monotonic clock (advanced
  by \<^verbatim>\<open>time.sleep\<close>), the button and the battery ADC as streams of samples with a
  read position, the files of the SD card (for a path, the exception that opening and
  decoding it raises, or the number of polls its sound lasts), and the number of coming
  reads of \<^verbatim>\<open>audio.playing\<close> that are still true.
\<close>

record dev =
  clock :: real
  trace :: "hw list"
  backlight_on :: bool
  last_lcd_1 :: "string option"
  last_lcd_2 :: "string option"
  last_eye_state :: "eye_state option"
  loaded_expr_l :: "eye option"
  loaded_expr_r :: "eye option"
  loaded_mouth :: "mouth option"
  eye_idx :: nat
  eye_t :: real
  bat_adc :: "nat \<Rightarrow> int"
  bat_adc_i :: nat
  bat_pct_cache :: int
  bat_last_read :: real
  interaction_count :: int
  interaction_pending :: int
  nvm :: "8 word list"
  last_pads :: "nat list"
  amp_en :: bool
  reset_btn :: "nat \<Rightarrow> bool"
  reset_btn_i :: nat
  sd_files :: "string \<Rightarrow> py_error + nat"
  audio_left :: nat
  last_activity :: real

text \<open>
  The globals as the module sets them when it is loaded, over a given environment: the
  ADC samples, the button samples, the files and the content of the non-volatile store.
\<close>

definition initial_dev :: "(nat \<Rightarrow> int) \<Rightarrow> (nat \<Rightarrow> bool) \<Rightarrow> (string \<Rightarrow> py_error + nat)
    \<Rightarrow> 8 word list \<Rightarrow> dev" where
  "initial_dev adc btn files store =
     \<lparr>clock = 0, trace = [], backlight_on = True, last_lcd_1 = None, last_lcd_2 = None,
      last_eye_state = None, loaded_expr_l = None, loaded_expr_r = None,
      loaded_mouth = None, eye_idx = 0, eye_t = 0, bat_adc = adc, bat_adc_i = 0,
      bat_pct_cache = - 1, bat_last_read = 0, interaction_count = 0,
      interaction_pending = 0, nvm = store, last_pads = [], amp_en = False,
      reset_btn = btn, reset_btn_i = 0, sd_files = files, audio_left = 0,
      last_activity = 0\<rparr>"

text \<open>
  A device just loaded: an erased store (all ones), no file on the card, the button
  never pressed, the ADC reading zero.
\<close>

definition fresh_dev :: dev where
  "fresh_dev = initial_dev (\<lambda>k. 0) (\<lambda>k. True) (\<lambda>path. Inl OSError) [255, 255, 255, 255]"

text \<open>
  A device in use: 53 interactions counted, 50 of them in the store and three pending,
  the amplifier enabled.
\<close>

definition poked_dev :: dev where
  "poked_dev = fresh_dev\<lparr>interaction_count := 53, interaction_pending := 3,
     nvm := [50, 0, 0, 0], amp_en := True\<rparr>"

text \<open>
  A call that may raise returns \<open>Inr\<close> of its result, or \<open>Inl\<close> of the exception
  together with the state the globals are in when it is raised.
\<close>

type_synonym 'a outcome = "(py_error \<times> dev) + 'a"

definition emit :: "hw \<Rightarrow> dev \<Rightarrow> dev" where
  "emit e s = s\<lparr>trace := trace s @ [e]\<rparr>"

definition emits :: "hw list \<Rightarrow> dev \<Rightarrow> dev" where
  "emits es s = s\<lparr>trace := trace s @ es\<rparr>"

text \<open>\<^verbatim>\<open>time.sleep(d)\<close>\<close>

definition sleep :: "real \<Rightarrow> dev \<Rightarrow> dev" where
  "sleep d s = s\<lparr>clock := clock s + d, trace := trace s @ [Sleep d]\<rparr>"

text \<open>
  The driver's operations \<^verbatim>\<open>lcd_clear\<close>, \<^verbatim>\<open>lcd_set_cursor\<close>, \<^verbatim>\<open>lcd_data\<close> and
  \<^verbatim>\<open>_lcd_create_char\<close>: one event each; the bus writes and settle delays inside them
  are not modelled.
\<close>

definition lcd_clear :: "dev \<Rightarrow> dev" where
  "lcd_clear s = emit LcdClear s"

definition lcd_set_cursor :: "nat \<Rightarrow> nat \<Rightarrow> dev \<Rightarrow> dev" where
  "lcd_set_cursor row col s = emit (LcdSetCursor row col) s"

definition lcd_data :: "nat \<Rightarrow> dev \<Rightarrow> dev" where
  "lcd_data d s = emit (LcdData d) s"

text \<open>\<^verbatim>\<open>lcd_print(s)\<close>: one data write per character, \<^verbatim>\<open>ord(ch)\<close>.\<close>

definition lcd_print :: "string \<Rightarrow> dev \<Rightarrow> dev" where
  "lcd_print str s = emits (map (\<lambda>ch. LcdData (of_char ch)) str) s"

definition lcd_create_char :: "nat \<Rightarrow> nat list \<Rightarrow> dev \<Rightarrow> dev" where
  "lcd_create_char slot bitmap s = emit (LcdCreateChar slot bitmap) s"

section \<open>Plain two-line view\<close>

text \<open>\<^verbatim>\<open>lcd_show(line1="", line2="", center=False)\<close>\<close>

definition lcd_show :: "string option \<Rightarrow> string option \<Rightarrow> bool \<Rightarrow> dev \<Rightarrow> dev" where
  "lcd_show line1 line2 center s =
     (let l1 = fit_line line1 LCD_COLS center;
          l2 = fit_line line2 LCD_COLS center
      in if Some l1 = last_lcd_1 s \<and> Some l2 = last_lcd_2 s then s
         else
           (let s1 = s\<lparr>last_lcd_1 := Some l1, last_lcd_2 := Some l2\<rparr>;
                s2 = lcd_clear s1;
                s3 = lcd_print l1 (lcd_set_cursor 1 0 s2);
                s4 = lcd_print l2 (lcd_set_cursor 2 0 s3)
            in s4))"

section \<open>Face view\<close>

fun EYES :: "eye \<Rightarrow> nat list \<times> nat list" where
  "EYES EyeCenter = ([0x0F, 0x10, 0x10, 0x13, 0x13, 0x10, 0x10, 0x0F],
                     [0x1E, 0x01, 0x01, 0x19, 0x19, 0x01, 0x01, 0x1E])"
| "EYES EyeLeft = ([0x0F, 0x10, 0x10, 0x16, 0x16, 0x10, 0x10, 0x0F],
                   [0x1E, 0x01, 0x01, 0x01, 0x01, 0x01, 0x01, 0x1E])"
| "EYES EyeRight = ([0x0F, 0x10, 0x10, 0x10, 0x10, 0x10, 0x10, 0x0F],
                    [0x1E, 0x01, 0x01, 0x0D, 0x0D, 0x01, 0x01, 0x1E])"
| "EYES EyeBlink = ([0x00, 0x00, 0x00, 0x0F, 0x0F, 0x00, 0x00, 0x00],
                    [0x00, 0x00, 0x00, 0x1E, 0x1E, 0x00, 0x00, 0x00])"
| "EYES EyeHappy = ([0x0F, 0x10, 0x10, 0x10, 0x08, 0x07, 0x00, 0x00],
                    [0x1E, 0x01, 0x01, 0x01, 0x02, 0x1C, 0x00, 0x00])"
| "EYES EyeSurprised = ([0x0F, 0x10, 0x14, 0x17, 0x17, 0x14, 0x10, 0x0F],
                        [0x1E, 0x01, 0x05, 0x1D, 0x1D, 0x05, 0x01, 0x1E])"
| "EYES EyeSleepy = ([0x00, 0x00, 0x00, 0x00, 0x0F, 0x10, 0x10, 0x0F],
                     [0x00, 0x00, 0x00, 0x00, 0x1E, 0x01, 0x01, 0x1E])"
| "EYES EyeWinkShut = ([0x00, 0x00, 0x0F, 0x10, 0x08, 0x07, 0x00, 0x00],
                       [0x00, 0x00, 0x1E, 0x01, 0x02, 0x1C, 0x00, 0x00])"

fun MOUTHS :: "mouth \<Rightarrow> nat list \<times> nat list \<times> nat list" where
  "MOUTHS MouthNeutral = ([0x00, 0x00, 0x00, 0x00, 0x00, 0x00, 0x03, 0x00],
                          [0x00, 0x00, 0x00, 0x00, 0x00, 0x00, 0x1F, 0x00],
                          [0x00, 0x00, 0x00, 0x00, 0x00, 0x00, 0x18, 0x00])"
| "MOUTHS MouthSmile = ([0x00, 0x00, 0x00, 0x00, 0x00, 0x01, 0x02, 0x1C],
                        [0x00, 0x00, 0x00, 0x00, 0x00, 0x00, 0x00, 0x1F],
                        [0x00, 0x00, 0x00, 0x00, 0x00, 0x10, 0x08, 0x07])"
| "MOUTHS MouthOpen = ([0x00, 0x00, 0x00, 0x00, 0x01, 0x02, 0x02, 0x01],
                       [0x00, 0x00, 0x00, 0x0E, 0x11, 0x00, 0x00, 0x11],
                       [0x00, 0x00, 0x00, 0x00, 0x10, 0x08, 0x08, 0x10])"

text \<open>\<^verbatim>\<open>_MOUTH_FOR_EXPR.get(name, "neutral")\<close>: every eye name is a key.\<close>

fun MOUTH_FOR_EXPR :: "eye \<Rightarrow> mouth" where
  "MOUTH_FOR_EXPR EyeCenter = MouthNeutral"
| "MOUTH_FOR_EXPR EyeLeft = MouthNeutral"
| "MOUTH_FOR_EXPR EyeRight = MouthNeutral"
| "MOUTH_FOR_EXPR EyeBlink = MouthNeutral"
| "MOUTH_FOR_EXPR EyeHappy = MouthSmile"
| "MOUTH_FOR_EXPR EyeSurprised = MouthOpen"
| "MOUTH_FOR_EXPR EyeSleepy = MouthNeutral"
| "MOUTH_FOR_EXPR EyeWinkShut = MouthSmile"

text \<open>\<^verbatim>\<open>_load_expression(left_name, right_name=None)\<close>\<close>

definition load_expression :: "eye \<Rightarrow> eye option \<Rightarrow> dev \<Rightarrow> dev" where
  "load_expression left_name right_name0 s =
     (let right_name = (case right_name0 of None \<Rightarrow> left_name | Some r \<Rightarrow> r) in
      if Some left_name = loaded_expr_l s \<and> Some right_name = loaded_expr_r s then s
      else
        (let s1 = s\<lparr>loaded_expr_l := Some left_name, loaded_expr_r := Some right_name\<rparr>;
             (ll, lr) = EYES left_name;
             (rl, rr) = EYES right_name
         in lcd_create_char 3 rr (lcd_create_char 2 rl
              (lcd_create_char 1 lr (lcd_create_char 0 ll s1)))))"

text \<open>\<^verbatim>\<open>_load_mouth(name)\<close>\<close>

definition load_mouth :: "mouth \<Rightarrow> dev \<Rightarrow> dev" where
  "load_mouth name s =
     (if Some name = loaded_mouth s then s
      else
        (let s1 = s\<lparr>loaded_mouth := Some name\<rparr>;
             (l, c, r) = MOUTHS name
         in lcd_create_char 6 r (lcd_create_char 5 c (lcd_create_char 4 l s1))))"

text \<open>
  The state tuple \<^verbatim>\<open>lcd_show_eyes\<close> compares:
  \<^verbatim>\<open>(left_expr, right_expr, mouth, bat_str, bottom)\<close>.
\<close>

definition eyes_state :: "string option \<Rightarrow> expr \<Rightarrow> string \<Rightarrow> mouth option
    \<Rightarrow> py_error + eye_state" where
  "eyes_state text expr_name bat_str mouth0 =
     (let (left_expr, right_expr) =
            (case expr_name of Pair l r \<Rightarrow> (l, Some r) | Sym e \<Rightarrow> (e, None));
          mouth = (case mouth0 of None \<Rightarrow> MOUTH_FOR_EXPR left_expr | Some m \<Rightarrow> m)
      in case (if bat_str \<noteq> [] then lcd_line text (Some bat_str) LCD_COLS
               else Inr (fit_line text LCD_COLS False)) of
           Inl e \<Rightarrow> Inl e
         | Inr bottom \<Rightarrow> Inr (left_expr, right_expr, mouth, bat_str, bottom))"

text \<open>
  \<^verbatim>\<open>lcd_show_eyes(text, expr_name, bat_str, mouth=None)\<close>: the tuple is built first
  (where \<^verbatim>\<open>_lcd_line\<close> may raise), then compared with the last one drawn.
\<close>

definition lcd_show_eyes :: "string option \<Rightarrow> expr \<Rightarrow> string \<Rightarrow> mouth option \<Rightarrow> dev
    \<Rightarrow> dev outcome" where
  "lcd_show_eyes text expr_name bat_str mouth0 s =
     (case eyes_state text expr_name bat_str mouth0 of
        Inl e \<Rightarrow> Inl (e, s)
      | Inr st \<Rightarrow>
          if Some st = last_eye_state s then Inr s
          else
            (case st of (left_expr, right_expr, mouth, b, bottom) \<Rightarrow>
              (let s1 = s\<lparr>last_eye_state := Some st, last_lcd_1 := None, last_lcd_2 := None\<rparr>;
                   s2 = load_mouth mouth (load_expression left_expr right_expr s1);
                   s3 = lcd_clear s2;
                   s4 = lcd_data 1 (lcd_data 0 (lcd_set_cursor 0 6 s3));
                   s5 = lcd_data 3 (lcd_data 2 (lcd_set_cursor 0 11 s4));
                   s6 = lcd_data 6 (lcd_data 5 (lcd_data 4 (lcd_set_cursor 1 8 s5)));
                   s7 = lcd_print bottom (lcd_set_cursor 3 0 s6)
               in Inr s7)))"

section \<open>Eye animation\<close>

definition EYE_SEQUENCE :: "(expr \<times> real) list" where
  "EYE_SEQUENCE =
     [(Sym EyeCenter, 3.0), (Sym EyeBlink, 0.15), (Sym EyeCenter, 2.0), (Sym EyeLeft, 1.5),
      (Sym EyeCenter, 1.0), (Sym EyeRight, 1.5), (Sym EyeCenter, 2.0), (Sym EyeBlink, 0.15),
      (Sym EyeCenter, 2.0), (Pair EyeCenter EyeWinkShut, 1.5), (Sym EyeCenter, 2.0),
      (Sym EyeHappy, 2.0)]"

text \<open>\<^verbatim>\<open>_reset_eye_anim()\<close>\<close>

definition reset_eye_anim :: "dev \<Rightarrow> dev" where
  "reset_eye_anim s = s\<lparr>eye_idx := 0, eye_t := clock s\<rparr>"

text \<open>
  \<^verbatim>\<open>_current_eye()\<close>: one test of the elapsed time, no loop. An index outside the
  sequence raises \<^verbatim>\<open>IndexError\<close>.
\<close>

definition current_eye :: "dev \<Rightarrow> (expr \<times> dev) outcome" where
  "current_eye s =
     (let now = clock s in
      if eye_idx s < length EYE_SEQUENCE then
        (let (name, dur) = EYE_SEQUENCE ! eye_idx s in
         if now - eye_t s \<ge> dur then
           (let idx = (eye_idx s + 1) mod length EYE_SEQUENCE;
                s1 = s\<lparr>eye_idx := idx, eye_t := now\<rparr>
            in Inr (fst (EYE_SEQUENCE ! idx), s1))
         else Inr (name, s))
      else Inl (IndexError, s))"

section \<open>Battery monitor\<close>

text \<open>\<^verbatim>\<open>int(x)\<close> of a float: truncation towards zero.\<close>

definition py_int :: "real \<Rightarrow> int" where
  "py_int x = (if x \<ge> 0 then \<lfloor>x\<rfloor> else \<lceil>x\<rceil>)"

text \<open>One read of \<^verbatim>\<open>_bat_adc.value\<close>: the next sample of the stream.\<close>

definition bat_adc_read :: "dev \<Rightarrow> int \<times> dev" where
  "bat_adc_read s = (bat_adc s (bat_adc_i s), s\<lparr>bat_adc_i := Suc (bat_adc_i s)\<rparr>)"

text \<open>
  \<^verbatim>\<open>for _ in range(n): total += _bat_adc.value; time.sleep(0.001)\<close>, with
  \<open>acc\<close> for \<^verbatim>\<open>total\<close>.
\<close>

fun bat_sample_loop :: "nat \<Rightarrow> int \<Rightarrow> dev \<Rightarrow> int \<times> dev" where
  "bat_sample_loop 0 acc s = (acc, s)"
| "bat_sample_loop (Suc n) acc s =
     (let (v, s1) = bat_adc_read s
      in bat_sample_loop n (acc + v) (sleep 0.001 s1))"

text \<open>
  The linear voltage model, from the sum of the samples (\<^verbatim>\<open>total\<close> in the
  source) to the percentage before clamping. The source computes it in floating point; here it is exact.
\<close>

definition bat_pct_of_total :: "int \<Rightarrow> int" where
  "bat_pct_of_total acc =
     (let voltage = (real_of_int acc / 5 / 65535) * 3.3 * BAT_DIVIDER
      in py_int ((voltage - BAT_EMPTY_V) / (BAT_FULL_V - BAT_EMPTY_V) * 100))"

text \<open>\<^verbatim>\<open>read_battery_pct()\<close>\<close>

definition read_battery_pct :: "dev \<Rightarrow> int \<times> dev" where
  "read_battery_pct s =
     (let now = clock s in
      if bat_pct_cache s \<ge> 0 \<and> now - bat_last_read s < BAT_UPDATE_S
      then (bat_pct_cache s, s)
      else
        (let (acc, s1) = bat_sample_loop 5 0 s;
             pct = bat_pct_of_total acc;
             s2 = s1\<lparr>bat_pct_cache := max 0 (min 100 pct), bat_last_read := now\<rparr>
         in (bat_pct_cache s2, s2)))"

datatype bat_level = Critical | Low | Normal

definition BAT_LOW_PCT :: int where
  "BAT_LOW_PCT = 15"

definition BAT_CRIT_PCT :: int where
  "BAT_CRIT_PCT = 5"

text \<open>\<^verbatim>\<open>_check_low_battery()\<close>; \<open>Normal\<close> stands for \<^verbatim>\<open>None\<close>.\<close>

definition check_low_battery :: "dev \<Rightarrow> bat_level \<times> dev" where
  "check_low_battery s =
     (let (pct, s1) = read_battery_pct s
      in if pct \<le> BAT_CRIT_PCT then (Critical, s1)
         else if pct \<le> BAT_LOW_PCT then (Low, s1)
         else (Normal, s1))"

section \<open>Interaction counter\<close>

text \<open>\<^verbatim>\<open>int.from_bytes(raw, "little")\<close>\<close>

fun from_bytes_little :: "8 word list \<Rightarrow> int" where
  "from_bytes_little [] = 0"
| "from_bytes_little (b # bs) = uint b + 256 * from_bytes_little bs"

text \<open>
  \<^verbatim>\<open>n.to_bytes(len, "little")\<close>: \<^verbatim>\<open>OverflowError\<close> for a negative number and for one
  that does not fit.
\<close>

definition to_bytes_little :: "nat \<Rightarrow> int \<Rightarrow> py_error + 8 word list" where
  "to_bytes_little len n =
     (if n < 0 \<or> n \<ge> 256 ^ len then Inl OverflowError
      else Inr (map (\<lambda>k. word_of_int (n div 256 ^ k)) [0..<len]))"

text \<open>\<^verbatim>\<open>_load_interaction_count()\<close>; \<^verbatim>\<open>nvm[0:4]\<close> is the first four bytes.\<close>

definition load_interaction_count :: "dev \<Rightarrow> dev" where
  "load_interaction_count s =
     (let raw = take 4 (nvm s);
          val0 = from_bytes_little raw;
          val1 = (if val0 > 1000000 then 0 else val0)
      in s\<lparr>interaction_count := val1\<rparr>)"

text \<open>
  \<^verbatim>\<open>_save_interaction_count()\<close>: the pending count is cleared first, then the bytes
  are built (which may raise) and stored over \<^verbatim>\<open>nvm[0:4]\<close>.
\<close>

definition save_interaction_count :: "dev \<Rightarrow> dev outcome" where
  "save_interaction_count s =
     (let s1 = s\<lparr>interaction_pending := 0\<rparr> in
      case to_bytes_little 4 (interaction_count s1) of
        Inl e \<Rightarrow> Inl (e, s1)
      | Inr bs \<Rightarrow> Inr (emit (NvmWrite bs) (s1\<lparr>nvm := bs @ drop 4 (nvm s1)\<rparr>)))"

text \<open>\<^verbatim>\<open>_increment_interaction()\<close>\<close>

definition increment_interaction :: "dev \<Rightarrow> dev outcome" where
  "increment_interaction s =
     (let s1 = s\<lparr>interaction_count := interaction_count s + 1\<rparr>;
          s2 = s1\<lparr>interaction_pending := interaction_pending s1 + 1\<rparr>
      in if interaction_pending s2 \<ge> 10 then save_interaction_count s2 else Inr s2)"

text \<open>Calling \<^verbatim>\<open>_increment_interaction()\<close> \<open>n\<close> times; an exception ends the run.\<close>

fun increments :: "nat \<Rightarrow> dev \<Rightarrow> dev outcome" where
  "increments 0 s = Inr s"
| "increments (Suc n) s =
     (case increment_interaction s of Inl e \<Rightarrow> Inl e | Inr s1 \<Rightarrow> increments n s1)"

section \<open>Easter egg\<close>

text \<open>
  \<^verbatim>\<open>_check_easter_egg(pad_idx)\<close>: the result is the flag returned to the caller, who
  skips normal playback when it is true.
\<close>

definition check_easter_egg :: "nat \<Rightarrow> dev \<Rightarrow> (bool \<times> dev) outcome" where
  "check_easter_egg pad_idx s =
     (let w0 = last_pads s @ [pad_idx];
          w1 = (if length w0 > length EASTER_EGG_SEQ
                then drop (length w0 - length EASTER_EGG_SEQ) w0 else w0);
          s1 = s\<lparr>last_pads := w1\<rparr>
      in if last_pads s1 = EASTER_EGG_SEQ then
           (case lcd_show_eyes (Some EASTER_EGG_MSG) (Sym EyeHappy) [] None
                   (s1\<lparr>last_pads := []\<rparr>) of
              Inl e \<Rightarrow> Inl e
            | Inr s2 \<Rightarrow> Inr (True, sleep 3.0 s2))
         else Inr (False, s1))"

text \<open>
  The pads of a list fired one after the other, with the flag of each call; an
  exception ends the run.
\<close>

fun fire_pads :: "nat list \<Rightarrow> dev \<Rightarrow> (bool list \<times> dev) outcome" where
  "fire_pads [] s = Inr ([], s)"
| "fire_pads (i # rest) s =
     (case check_easter_egg i s of
        Inl e \<Rightarrow> Inl e
      | Inr (b, s1) \<Rightarrow>
          (case fire_pads rest s1 of
             Inl e \<Rightarrow> Inl e
           | Inr (bs, s2) \<Rightarrow> Inr (b # bs, s2)))"

section \<open>Playback\<close>

text \<open>
  \<^verbatim>\<open>start_pressed()\<close>: the button is active low, so pressed is the negation of the
  pin's next sample.
\<close>

definition start_pressed :: "dev \<Rightarrow> bool \<times> dev" where
  "start_pressed s = (\<not> reset_btn s (reset_btn_i s), s\<lparr>reset_btn_i := Suc (reset_btn_i s)\<rparr>)"

text \<open>
  The audio engine: a read of \<^verbatim>\<open>audio.playing\<close> uses up one of the polls the
  sound still lasts, \<^verbatim>\<open>audio.stop()\<close> ends it, \<^verbatim>\<open>audio.play(wav)\<close> starts a sound
  of the file's length.
\<close>

definition audio_playing :: "dev \<Rightarrow> bool \<times> dev" where
  "audio_playing s = (0 < audio_left s, s\<lparr>audio_left := audio_left s - 1\<rparr>)"

definition audio_stop :: "dev \<Rightarrow> dev" where
  "audio_stop s = emit AudioStop (s\<lparr>audio_left := 0\<rparr>)"

definition audio_play :: "string \<Rightarrow> nat \<Rightarrow> dev \<Rightarrow> dev" where
  "audio_play path n s = emit (AudioPlay path) (s\<lparr>audio_left := n\<rparr>)"

definition set_amp_en :: "bool \<Rightarrow> dev \<Rightarrow> dev" where
  "set_amp_en b s = emit (AmpEn b) (s\<lparr>amp_en := b\<rparr>)"

text \<open>\<^verbatim>\<open>lcd_playing(label, expr=None)\<close>\<close>

definition lcd_playing :: "string \<Rightarrow> expr option \<Rightarrow> dev \<Rightarrow> dev outcome" where
  "lcd_playing label expr0 s =
     (case expr0 of
        None \<Rightarrow>
          (case current_eye s of
             Inl e \<Rightarrow> Inl e
           | Inr (ex, s1) \<Rightarrow> lcd_show_eyes (Some label) ex [] (Some MouthOpen) s1)
      | Some ex \<Rightarrow> lcd_show_eyes (Some label) ex [] (Some MouthOpen) s)"

text \<open>\<^verbatim>\<open>lcd_missing(name)\<close>\<close>

definition lcd_missing :: "string \<Rightarrow> dev \<Rightarrow> dev" where
  "lcd_missing name s = lcd_show (Some ''Missing file'') (Some name) False s"

text \<open>\<^verbatim>\<open>path.split("/")[-1]\<close>: what follows the last slash.\<close>

definition last_component :: "string \<Rightarrow> string" where
  "last_component path = rev (takeWhile (\<lambda>c. c \<noteq> CHR ''/'') (rev path))"

text \<open>
  The loop \<^verbatim>\<open>while audio.playing: ...\<close> of \<^verbatim>\<open>play_wav\<close>. The first argument is the
  number of polls the sound still lasts; the button is read only when interrupting is
  allowed.
\<close>

fun playing_loop :: "nat \<Rightarrow> bool \<Rightarrow> string \<Rightarrow> expr option \<Rightarrow> dev \<Rightarrow> dev outcome" where
  "playing_loop 0 allow label ex s = Inr (snd (audio_playing s))"
| "playing_loop (Suc n) allow label ex s =
     (let s1 = snd (audio_playing s);
          (pressed, s2) = (if allow then start_pressed s1 else (False, s1))
      in if pressed then Inr (audio_stop s2)
         else (case lcd_playing label ex s2 of
                 Inl e \<Rightarrow> Inl e
               | Inr s3 \<Rightarrow> playing_loop n allow label ex (sleep 0.01 s3)))"

text \<open>
  The \<^verbatim>\<open>except OSError\<close> clause of \<^verbatim>\<open>play_wav\<close>: the amplifier is disabled, the
  missing-file screen is shown, and the call returns after a sleep.
\<close>

definition play_wav_except :: "string \<Rightarrow> dev \<Rightarrow> dev" where
  "play_wav_except path s =
     sleep 1.2 (lcd_missing (last_component path) (set_amp_en False s))"

text \<open>
  \<^verbatim>\<open>play_wav(path, label, allow_start_interrupt=True, expr=None)\<close>. The
  \<^verbatim>\<open>try\<close> block holds the opening of the file and the loop; only \<^verbatim>\<open>OSError\<close> is
  caught, any other exception leaves the function.
\<close>

definition play_wav :: "string \<Rightarrow> string \<Rightarrow> bool \<Rightarrow> expr option \<Rightarrow> dev \<Rightarrow> dev outcome" where
  "play_wav path label allow ex s =
     (let s1 = s\<lparr>last_activity := clock s\<rparr>;
          (playing, s2) = audio_playing s1;
          s3 = (if playing then sleep 0.05 (audio_stop s2) else s2)
      in case lcd_playing label ex s3 of
           Inl e \<Rightarrow> Inl e
         | Inr s4 \<Rightarrow>
             (let s5 = sleep 0.15 (set_amp_en True s4) in
              case sd_files s5 path of
                Inl e \<Rightarrow>
                  if e = OSError then Inr (play_wav_except path s5) else Inl (e, s5)
              | Inr n \<Rightarrow>
                  (case playing_loop n allow label ex (audio_play path n s5) of
                     Inl (e, sx) \<Rightarrow>
                       if e = OSError then Inr (play_wav_except path sx) else Inl (e, sx)
                   | Inr s6 \<Rightarrow> Inr (set_amp_en False (sleep 0.15 (audio_stop s6))))))"

text \<open>
  \<^verbatim>\<open>TOUCH_MAP\<close> (sound file and label of each pad) and \<^verbatim>\<open>TOUCH_EXPR\<close>.
\<close>

definition TOUCH_MAP :: "(string \<times> string) list" where
  "TOUCH_MAP =
     [(''/sd/Sounds/StartUp.wav'', ''StartUp''), (''/sd/Sounds/Tip2.wav'', ''Tip2''),
      (''/sd/Sounds/Tip3.wav'', ''Tip3''), (''/sd/Sounds/Tip4.wav'', ''Tip4''),
      (''/sd/Sounds/Tip5.wav'', ''Tip5'')]"

definition TOUCH_EXPR :: "expr list" where
  "TOUCH_EXPR = [Sym EyeSurprised, Sym EyeCenter, Sym EyeHappy, Pair EyeCenter EyeWinkShut,
     Sym EyeSurprised]"

text \<open>
  What the main loop does with a pad that fired, from the easter-egg check to the
  playback: \<^verbatim>\<open>if _check_easter_egg(i): pass  else: play_wav(wav_path, msg, ...)\<close>.
  \<open>msg\<close> is the message \<^verbatim>\<open>random.choice\<close> picked; \<open>i\<close> is an index of
  \<^verbatim>\<open>TOUCH_MAP\<close>.
\<close>

definition egg_or_play :: "nat \<Rightarrow> string \<Rightarrow> dev \<Rightarrow> dev outcome" where
  "egg_or_play i msg s =
     (case check_easter_egg i s of
        Inl e \<Rightarrow> Inl e
      | Inr (egg, s1) \<Rightarrow>
          if egg then Inr s1
          else
            (let pad_expr = (if i < length TOUCH_EXPR then Some (TOUCH_EXPR ! i) else None)
             in play_wav (fst (TOUCH_MAP ! i)) msg True pad_expr s1))"

section \<open>Power off\<close>

text \<open>\<^verbatim>\<open>_set_backlight(on)\<close>\<close>

definition set_backlight :: "bool \<Rightarrow> dev \<Rightarrow> dev" where
  "set_backlight on s =
     (if backlight_on s = on then s
      else emit (LcdBacklight on) (s\<lparr>backlight_on := on\<rparr>))"

text \<open>
  \<^verbatim>\<open>power_off()\<close> up to the wait for the button: the counter, the amplifier, the
  audio engine, the screen and the backlight, in the order of the source.
\<close>

definition power_off_shutdown :: "dev \<Rightarrow> dev outcome" where
  "power_off_shutdown s =
     (case save_interaction_count s of
        Inl e \<Rightarrow> Inl e
      | Inr s1 \<Rightarrow>
          (let s2 = set_amp_en False s1;
               (playing, s3) = audio_playing s2;
               s4 = (if playing then audio_stop s3 else s3);
               s5 = lcd_show (Some ''Powering off...'') (Some []) True s4;
               s6 = sleep 2.0 s5;
               s7 = lcd_clear s6
           in Inr (set_backlight False s7)))"

text \<open>
  \<^verbatim>\<open>while start_pressed(): time.sleep(0.01)\<close>. The loop has no bound of its own; the
  first argument limits the reads of the button, and \<open>None\<close> says that the button was
  still held at the last of them.
\<close>

fun wait_release :: "nat \<Rightarrow> dev \<Rightarrow> dev option" where
  "wait_release 0 s = None"
| "wait_release (Suc n) s =
     (let (pressed, s1) = start_pressed s
      in if pressed then wait_release n (sleep 0.01 s1) else Some s1)"

text \<open>
  \<^verbatim>\<open>power_off()\<close>. It ends in the deep sleep, from which the board restarts: the
  state returned is the one the device halts in.
\<close>

definition power_off :: "nat \<Rightarrow> dev \<Rightarrow> dev outcome option" where
  "power_off fuel s =
     (case power_off_shutdown s of
        Inl e \<Rightarrow> Some (Inl e)
      | Inr s1 \<Rightarrow>
          (case wait_release fuel s1 of
             None \<Rightarrow> None
           | Some s2 \<Rightarrow> Some (Inr (emit DeepSleep (sleep 0.1 s2)))))"

text \<open>
  The low-battery check at the top of the main loop, critical branch:
  \<^verbatim>\<open>_save_interaction_count(); power_off()\<close>. On the other levels the loop goes on
  (the low-battery warning writes to the display only and is not part of this function).
\<close>

definition battery_check :: "nat \<Rightarrow> dev \<Rightarrow> dev outcome option" where
  "battery_check fuel s =
     (let (bat_lvl, s1) = check_low_battery s in
      if bat_lvl = Critical then
        (case save_interaction_count s1 of
           Inl e \<Rightarrow> Some (Inl e)
         | Inr s2 \<Rightarrow> power_off fuel s2)
      else Some (Inr s1))"

text \<open>
  The hold loop of the main loop, entered when the button reads pressed:
  \<^verbatim>\<open>while start_pressed(): if elapsed >= POWER_OFF_HOLD_S: power_off(); sleep(0.01)\<close>.
  A release before the hold time is a short press.
\<close>

datatype hold = ShortPress dev | PoweredOff dev

fun hold_loop :: "nat \<Rightarrow> real \<Rightarrow> dev \<Rightarrow> hold outcome option" where
  "hold_loop 0 press_start s = None"
| "hold_loop (Suc n) press_start s =
     (let (pressed, s1) = start_pressed s
      in if \<not> pressed then Some (Inr (ShortPress s1))
         else if clock s1 - press_start \<ge> POWER_OFF_HOLD_S then
           (case power_off n s1 of
              None \<Rightarrow> None
            | Some (Inl e) \<Rightarrow> Some (Inl e)
            | Some (Inr s2) \<Rightarrow> Some (Inr (PoweredOff s2)))
         else hold_loop n press_start (sleep 0.01 s1))"

section \<open>Touch pads\<close>








section \<open>Predicates used in the statements\<close>

text \<open>The events of the display driver.\<close>

fun lcd_event :: "hw \<Rightarrow> bool" where
  "lcd_event LcdClear = True"
| "lcd_event (LcdSetCursor row col) = True"
| "lcd_event (LcdData d) = True"
| "lcd_event (LcdCreateChar slot bitmap) = True"
| "lcd_event (LcdBacklight b) = True"
| "lcd_event e = False"

text \<open>What a step from \<open>s\<close> to \<open>s1\<close> added to the event log.\<close>

definition new_events :: "dev \<Rightarrow> dev \<Rightarrow> hw list" where
  "new_events s s1 = drop (length (trace s)) (trace s1)"

text \<open>
  A state with the event log and the renderer's own globals (the two change-detection
  caches and the loaded glyphs) blanked: two states that agree on it differ at most in
  those.
\<close>

definition blank_display :: "dev \<Rightarrow> dev" where
  "blank_display s =
     s\<lparr>trace := [], last_lcd_1 := None, last_lcd_2 := None, last_eye_state := None,
       loaded_expr_l := None, loaded_expr_r := None, loaded_mouth := None\<rparr>"

text \<open>
  The easter-egg window alone: push the pad, keep the last three, and clear on a match.
\<close>

definition egg_window :: "nat list \<Rightarrow> nat \<Rightarrow> bool \<times> nat list" where
  "egg_window w pad_idx =
     (let w0 = w @ [pad_idx];
          w1 = (if length w0 > length EASTER_EGG_SEQ
                then drop (length w0 - length EASTER_EGG_SEQ) w0 else w0)
      in if w1 = EASTER_EGG_SEQ then (True, []) else (False, w1))"

fun egg_windows :: "nat list \<Rightarrow> nat list \<Rightarrow> bool list \<times> nat list" where
  "egg_windows w [] = ([], w)"
| "egg_windows w (i # rest) =
     (let (b, w1) = egg_window w i; (bs, w2) = egg_windows w1 rest in (b # bs, w2))"



text \<open>
  What a render call puts on the screen: the two fitted lines of the plain view, or the
  state tuple of the face view. A call is one of the two functions with its arguments.
\<close>

datatype content = Text string string | Face eye_state

datatype render_call = Show "string option" "string option" bool
  | ShowEyes "string option" expr string "mouth option"

definition rendered :: "render_call \<Rightarrow> py_error + content" where
  "rendered c =
     (case c of
        Show line1 line2 center \<Rightarrow>
          Inr (Text (fit_line line1 LCD_COLS center) (fit_line line2 LCD_COLS center))
      | ShowEyes text expr_name bat_str mouth0 \<Rightarrow>
          (case eyes_state text expr_name bat_str mouth0 of
             Inl e \<Rightarrow> Inl e
           | Inr st \<Rightarrow> Inr (Face st)))"

definition render :: "render_call \<Rightarrow> dev \<Rightarrow> dev outcome" where
  "render c s =
     (case c of
        Show line1 line2 center \<Rightarrow> Inr (lcd_show line1 line2 center s)
      | ShowEyes text expr_name bat_str mouth0 \<Rightarrow> lcd_show_eyes text expr_name bat_str mouth0 s)"

text \<open>The step from \<open>s\<close> to \<open>s1\<close> wrote to the hardware.\<close>

definition wrote :: "dev \<Rightarrow> dev \<Rightarrow> bool" where
  "wrote s s1 = (new_events s s1 \<noteq> [])"

text \<open>
  A list of render calls made one after the other: the contents of those that wrote, in
  order. An exception ends the run.
\<close>

fun redraws :: "render_call list \<Rightarrow> dev \<Rightarrow> content list" where
  "redraws [] s = []"
| "redraws (c # cs) s =
     (case render c s of
        Inl e \<Rightarrow> []
      | Inr s1 \<Rightarrow>
          (if wrote s s1 then (case rendered c of Inl e \<Rightarrow> [] | Inr x \<Rightarrow> [x]) else [])
          @ redraws cs s1)"

text \<open>
  The change-detection caches hold the content \<open>prev\<close>, the last one drawn: the two
  lines for the plain view, the state tuple for the face view.
\<close>

fun cached :: "content option \<Rightarrow> dev \<Rightarrow> bool" where
  "cached None s = True"
| "cached (Some (Text a b)) s = (last_lcd_1 s = Some a \<and> last_lcd_2 s = Some b)"
| "cached (Some (Face st)) s = (last_eye_state s = Some st)"

text \<open>
  In a list of events, the amplifier is disabled at or after the sleep of 1.2 s that
  holds the missing-file screen.
\<close>

definition dwell_before_amp_off :: "hw list \<Rightarrow> bool" where
  "dwell_before_amp_off evs = (AmpEn False \<in> set (dropWhile (\<lambda>e. e \<noteq> Sleep 1.2) evs))"

text \<open>The other order: that sleep comes after the event that disables the amplifier.\<close>

definition amp_off_before_dwell :: "hw list \<Rightarrow> bool" where
  "amp_off_before_dwell evs = (Sleep 1.2 \<in> set (dropWhile (\<lambda>e. e \<noteq> AmpEn False) evs))"

text \<open>What may precede the amplifier's enabling in \<^verbatim>\<open>play_wav\<close>.\<close>

definition before_amp :: "hw \<Rightarrow> bool" where
  "before_amp e = (lcd_event e \<or> e = AudioStop \<or> e = Sleep 0.05)"

text \<open>
  The four bytes \<^verbatim>\<open>_save_interaction_count\<close> stores for the counter of a state (the
  empty list when the counter does not fit).
\<close>

definition count_bytes :: "dev \<Rightarrow> 8 word list" where
  "count_bytes s = (case to_bytes_little 4 (interaction_count s) of Inl e \<Rightarrow> [] | Inr bs \<Rightarrow> bs)"

text \<open>
  In a list of events, the amplifier is disabled only with the counter flushed: every
  event that disables it comes after a write of the bytes \<open>bs\<close> to the store, with no
  other write in between. The flag says whether such a write has been seen.
\<close>

fun flushed_at_amp_off :: "8 word list \<Rightarrow> bool \<Rightarrow> hw list \<Rightarrow> bool" where
  "flushed_at_amp_off bs fl [] = True"
| "flushed_at_amp_off bs fl (NvmWrite b # es) = flushed_at_amp_off bs (b = bs) es"
| "flushed_at_amp_off bs fl (AmpEn en # es) = ((en \<or> fl) \<and> flushed_at_amp_off bs fl es)"
| "flushed_at_amp_off bs fl (e # es) = flushed_at_amp_off bs fl es"

text \<open>
  A step from \<open>s\<close> to \<open>s1\<close> that disabled the amplifier, and only with the counter of
  \<open>s\<close> flushed: the store's first four bytes are those of the counter, nothing is
  pending, and the counter itself is as it was.
\<close>

definition powered_off_flushed :: "dev \<Rightarrow> dev \<Rightarrow> bool" where
  "powered_off_flushed s s1 =
     (trace s1 = trace s @ new_events s s1
      \<and> flushed_at_amp_off (count_bytes s) False (new_events s s1)
      \<and> AmpEn False \<in> set (new_events s s1)
      \<and> \<not> amp_en s1
      \<and> interaction_pending s1 = 0
      \<and> interaction_count s1 = interaction_count s
      \<and> take 4 (nvm s1) = count_bytes s
      \<and> from_bytes_little (take 4 (nvm s1)) = interaction_count s1)"

text \<open>An event that touches neither the store nor the amplifier.\<close>

fun quiet :: "hw \<Rightarrow> bool" where
  "quiet (NvmWrite b) = False"
| "quiet (AmpEn en) = False"
| "quiet e = True"


section \<open>Properties\<close>




subsection \<open>C10: the formatted line is as wide as the display\<close>



subsection \<open>C8: loading the counter\<close>

lemma from_bytes_little4:
  "from_bytes_little [b0, b1, b2, b3] =
     uint b0 + 256 * uint b1 + 65536 * uint b2 + 16777216 * uint b3"
  by simp

text \<open>
  C8. Whatever the four bytes at the start of the non-volatile store are, the load path
  reads them as a little-endian unsigned 32-bit number (the first byte the least
  significant, the result below \<open>2 ^ 32\<close>) and stores zero instead when that number
  is above 1,000,000; a store of all ones loads as zero.
\<close>

theorem C8_load_sanitizes:
  "interaction_count (load_interaction_count (s\<lparr>nvm := b0 # b1 # b2 # b3 # rest\<rparr>)) =
     (if uint b0 + 256 * uint b1 + 65536 * uint b2 + 16777216 * uint b3 > 1000000 then 0
      else uint b0 + 256 * uint b1 + 65536 * uint b2 + 16777216 * uint b3)
   \<and> 0 \<le> uint b0 + 256 * uint b1 + 65536 * uint b2 + 16777216 * uint b3
   \<and> uint b0 + 256 * uint b1 + 65536 * uint b2 + 16777216 * uint b3 < 2 ^ 32
   \<and> interaction_count (load_interaction_count (s\<lparr>nvm := 255 # 255 # 255 # 255 # rest\<rparr>)) = 0
   \<and> from_bytes_little [255, 255, 255, 255] = 4294967295"
proof -
  have b: "uint b0 < 256" "uint b1 < 256" "uint b2 < 256" "uint b3 < 256"
    using uint_bounded [of b0] uint_bounded [of b1] uint_bounded [of b2] uint_bounded [of b3]
    by simp_all
  have n: "0 \<le> uint b0" "0 \<le> uint b1" "0 \<le> uint b2" "0 \<le> uint b3"
    by simp_all
  have lt: "uint b0 + 256 * uint b1 + 65536 * uint b2 + 16777216 * uint b3 < 2 ^ 32"
    using b n by simp
  have ge: "0 \<le> uint b0 + 256 * uint b1 + 65536 * uint b2 + 16777216 * uint b3"
    using n by simp
  have ld: "interaction_count (load_interaction_count (s\<lparr>nvm := b0 # b1 # b2 # b3 # rest\<rparr>)) =
     (if uint b0 + 256 * uint b1 + 65536 * uint b2 + 16777216 * uint b3 > 1000000 then 0
      else uint b0 + 256 * uint b1 + 65536 * uint b2 + 16777216 * uint b3)"
    by (simp add: load_interaction_count_def Let_def)
  have ones: "interaction_count (load_interaction_count (s\<lparr>nvm := 255 # 255 # 255 # 255 # rest\<rparr>)) = 0"
    by (simp add: load_interaction_count_def Let_def)
  have v: "from_bytes_little [255, 255, 255, 255] = 4294967295"
    by simp
  from ld ge lt ones v show ?thesis by blast
qed

subsection \<open>C4: the counter is written back every tenth increment\<close>

lemma upt4: "[0..<4] = [0, 1, 2, 3]"
  by (simp add: upt_rec)

lemma to_bytes_little4:
  "0 \<le> n \<Longrightarrow> n < 4294967296 \<Longrightarrow>
   to_bytes_little 4 n = Inr [word_of_int n, word_of_int (n div 256),
      word_of_int (n div 65536), word_of_int (n div 16777216)]"
  by (simp add: to_bytes_little_def upt4)

lemma base256_digits:
  fixes n m1 m2 m3 r0 r1 r2 :: int
  assumes "n = 256 * m1 + r0" "m1 = 256 * m2 + r1" "m2 = 256 * m3 + r2"
  shows "r0 + 256 * (r1 + 256 * (r2 + 256 * (m3 + 256 * 0))) = n"
  using assms by simp

lemma from_to_bytes:
  assumes "0 \<le> n" "n < 4294967296"
  shows "from_bytes_little [word_of_int n, word_of_int (n div 256),
      word_of_int (n div 65536), word_of_int (n div 16777216)] = n"
proof -
  define m1 where "m1 = n div 256"
  define m2 where "m2 = m1 div 256"
  define m3 where "m3 = m2 div 256"
  have d2: "n div 65536 = m2"
    unfolding m2_def m1_def by (simp add: div_mult2_eq [symmetric])
  have d3: "n div 16777216 = m3"
    unfolding m3_def m2_def m1_def by (simp add: div_mult2_eq [symmetric])
  have small: "0 \<le> m3" "m3 < 256"
    using assms d3 [symmetric] by simp_all
  have m3mod: "m3 mod 256 = m3"
    using small by simp
  have e1: "n = 256 * m1 + n mod 256"
    unfolding m1_def by simp
  have e2: "m1 = 256 * m2 + m1 mod 256"
    unfolding m2_def by simp
  have e3: "m2 = 256 * m3 + m2 mod 256"
    unfolding m3_def by simp
  have "from_bytes_little [word_of_int n, word_of_int m1, word_of_int m2, word_of_int m3]
          = n mod 256 + 256 * (m1 mod 256 + 256 * (m2 mod 256 + 256 * (m3 + 256 * 0)))"
    using m3mod by (simp add: uint_word_of_int)
  also have "\<dots> = n"
    by (rule base256_digits [OF e1 e2 e3])
  finally show ?thesis
    by (simp only: d2 d3 m1_def [symmetric])
qed

lemma save_in_range:
  assumes "0 \<le> interaction_count s" "interaction_count s < 4294967296"
  shows "\<exists>bs. length bs = 4 \<and> from_bytes_little bs = interaction_count s
     \<and> save_interaction_count s =
         Inr (s\<lparr>interaction_pending := 0, nvm := bs @ drop 4 (nvm s),
                 trace := trace s @ [NvmWrite bs]\<rparr>)"
proof -
  define bs :: "8 word list" where "bs = [word_of_int (interaction_count s),
      word_of_int (interaction_count s div 256), word_of_int (interaction_count s div 65536),
      word_of_int (interaction_count s div 16777216)]"
  have "length bs = 4"
    by (simp add: bs_def)
  moreover have "from_bytes_little bs = interaction_count s"
    unfolding bs_def by (rule from_to_bytes [OF assms])
  moreover have "save_interaction_count s =
         Inr (s\<lparr>interaction_pending := 0, nvm := bs @ drop 4 (nvm s),
                 trace := trace s @ [NvmWrite bs]\<rparr>)"
    using assms by (simp add: save_interaction_count_def to_bytes_little4 emit_def bs_def)
  ultimately show ?thesis by blast
qed

lemma save_pending_zero:
  "(case save_interaction_count s of Inl (e, s1) \<Rightarrow> interaction_pending s1 = 0
    | Inr s1 \<Rightarrow> interaction_pending s1 = 0)"
  by (cases "to_bytes_little 4 (interaction_count s)")
     (simp_all add: save_interaction_count_def emit_def Let_def)

lemma increments_below:
  "interaction_pending s + int n < 10 \<Longrightarrow>
   increments n s = Inr (s\<lparr>interaction_count := interaction_count s + int n,
                            interaction_pending := interaction_pending s + int n\<rparr>)"
proof (induction n arbitrary: s)
  case 0
  then show ?case by simp
next
  case (Suc n)
  then show ?case
    by (simp add: increment_interaction_def Let_def add.assoc)
qed

lemma increments_Suc_end:
  "increments (Suc n) s =
     (case increments n s of Inl e \<Rightarrow> Inl e | Inr s1 \<Rightarrow> increment_interaction s1)"
proof (induction n arbitrary: s)
  case 0
  show ?case by (cases "increment_interaction s") simp_all
next
  case (Suc n)
  show ?case
  proof (cases "increment_interaction s")
    case (Inl e)
    then show ?thesis by simp
  next
    case (Inr s1)
    then show ?thesis using Suc [of s1] by simp
  qed
qed

text \<open>
  C4. From a state with nothing pending and a counter that stays within 32 bits, any
  number of increments below ten leaves the non-volatile store as it was and writes
  nothing; the tenth stores the counter (the first four bytes of the store then decode
  to the in-memory count, the rest of the store is untouched) and sets pending to zero.
  After any call of the save function, returning or raising, pending is below the
  threshold of ten.
\<close>

theorem C4_flush_threshold:
  assumes "interaction_pending s = 0"
    and "0 \<le> interaction_count s" and "interaction_count s + 10 < 2 ^ 32"
  shows "(n < 10 \<longrightarrow>
           (case increments n s of
              Inl x \<Rightarrow> False
            | Inr s1 \<Rightarrow> nvm s1 = nvm s \<and> trace s1 = trace s
                \<and> interaction_count s1 = interaction_count s + int n
                \<and> interaction_pending s1 = int n))
       \<and> (case increments 10 s of
              Inl x \<Rightarrow> False
            | Inr s1 \<Rightarrow> interaction_count s1 = interaction_count s + 10
                \<and> from_bytes_little (take 4 (nvm s1)) = interaction_count s1
                \<and> drop 4 (nvm s1) = drop 4 (nvm s)
                \<and> trace s1 = trace s @ [NvmWrite (take 4 (nvm s1))]
                \<and> interaction_pending s1 = 0 \<and> interaction_pending s1 < 10)
       \<and> (case save_interaction_count s' of
              Inl (e, s1) \<Rightarrow> interaction_pending s1 < 10
            | Inr s1 \<Rightarrow> interaction_pending s1 < 10)"
proof -
  have first: "n < 10 \<longrightarrow>
           (case increments n s of
              Inl x \<Rightarrow> False
            | Inr s1 \<Rightarrow> nvm s1 = nvm s \<and> trace s1 = trace s
                \<and> interaction_count s1 = interaction_count s + int n
                \<and> interaction_pending s1 = int n)"
    using assms(1) by (simp add: increments_below)
  define s9 where "s9 = s\<lparr>interaction_count := interaction_count s + 9,
                            interaction_pending := 9\<rparr>"
  define s10 where "s10 = s9\<lparr>interaction_count := interaction_count s + 10,
                            interaction_pending := 10\<rparr>"
  have nine: "increments 9 s = Inr s9"
    using assms(1) increments_below [of s 9] by (simp add: s9_def)
  have ten: "increments 10 s = save_interaction_count s10"
    using increments_Suc_end [of 9 s] nine
    by (simp add: increment_interaction_def s9_def s10_def Let_def add.commute)
  have rng: "0 \<le> interaction_count s10" "interaction_count s10 < 4294967296"
    using assms(2,3) by (simp_all add: s10_def)
  from save_in_range [OF rng] obtain bs where bs: "length bs = 4"
      "from_bytes_little bs = interaction_count s10"
      "save_interaction_count s10 =
         Inr (s10\<lparr>interaction_pending := 0, nvm := bs @ drop 4 (nvm s10),
                 trace := trace s10 @ [NvmWrite bs]\<rparr>)"
    by blast
  have second: "(case increments 10 s of
              Inl x \<Rightarrow> False
            | Inr s1 \<Rightarrow> interaction_count s1 = interaction_count s + 10
                \<and> from_bytes_little (take 4 (nvm s1)) = interaction_count s1
                \<and> drop 4 (nvm s1) = drop 4 (nvm s)
                \<and> trace s1 = trace s @ [NvmWrite (take 4 (nvm s1))]
                \<and> interaction_pending s1 = 0 \<and> interaction_pending s1 < 10)"
    using bs by (simp add: ten s10_def s9_def)
  have third: "(case save_interaction_count s' of
              Inl (e, s1) \<Rightarrow> interaction_pending s1 < 10
            | Inr s1 \<Rightarrow> interaction_pending s1 < 10)"
    using save_pending_zero [of s'] by (auto split: sum.splits)
  from first second third show ?thesis by blast
qed

theorem C4_flush_threshold_witness:
  "interaction_pending fresh_dev = 0
   \<and> 0 \<le> interaction_count fresh_dev
   \<and> interaction_count fresh_dev + 10 < 2 ^ 32
   \<and> nvm (projr (increments 9 fresh_dev)) = [255, 255, 255, 255]
   \<and> nvm (projr (increments 10 fresh_dev)) = [10, 0, 0, 0]
   \<and> interaction_pending (projr (increments 10 fresh_dev)) = 0"
  using C4_flush_threshold [of fresh_dev 9]
  by (simp add: fresh_dev_def initial_dev_def eval_nat_numeral increment_interaction_def
      save_interaction_count_def to_bytes_little_def emit_def upt_rec Let_def)

subsection \<open>C9: the animation advances one step per call\<close>

lemma length_EYE_SEQUENCE: "length EYE_SEQUENCE = 12"
  by (simp add: EYE_SEQUENCE_def)

text \<open>
  C9. With the cursor inside the sequence, a call of \<^verbatim>\<open>_current_eye\<close> returns an
  expression and leaves the cursor where it was or one step further (wrapping after the
  twelfth step), whatever the clock and the start of the step are: when the time elapsed
  has reached the step's duration the cursor moves by exactly one and the step's start
  becomes the present time, otherwise nothing changes. The expression returned is that of
  the step the cursor is on after the call.
\<close>

theorem C9_one_step_per_call:
  assumes "eye_idx s < length EYE_SEQUENCE"
  shows "case current_eye s of
           Inl x \<Rightarrow> False
         | Inr (name, s1) \<Rightarrow>
             (if clock s - eye_t s \<ge> snd (EYE_SEQUENCE ! eye_idx s)
              then eye_idx s1 = (eye_idx s + 1) mod 12 \<and> eye_t s1 = clock s
              else s1 = s)
             \<and> (eye_idx s1 = eye_idx s \<or> eye_idx s1 = (eye_idx s + 1) mod 12)
             \<and> name = fst (EYE_SEQUENCE ! eye_idx s1)
             \<and> eye_idx s1 < length EYE_SEQUENCE"
  using assms
  by (simp add: current_eye_def Let_def length_EYE_SEQUENCE split: prod.splits)

theorem C9_one_step_per_call_witness:
  "eye_idx (fresh_dev\<lparr>clock := 100\<rparr>) < length EYE_SEQUENCE
   \<and> 100 - eye_t (fresh_dev\<lparr>clock := 100\<rparr>) \<ge> 3.0 + 0.15 + 2.0
   \<and> fst (projr (current_eye (fresh_dev\<lparr>clock := 100\<rparr>))) = Sym EyeBlink
   \<and> eye_idx (snd (projr (current_eye (fresh_dev\<lparr>clock := 100\<rparr>)))) = 1"
  using C9_one_step_per_call [of "fresh_dev\<lparr>clock := 100\<rparr>"]
  by (simp add: fresh_dev_def initial_dev_def current_eye_def EYE_SEQUENCE_def Let_def)

subsection \<open>C7: the battery percentage\<close>



lemma bat_sample_loop_cache:
  "bat_pct_cache (snd (bat_sample_loop n acc s)) = bat_pct_cache s"
  by (induction n arbitrary: acc s) (simp_all add: bat_adc_read_def sleep_def split: prod.splits)



subsection \<open>What the display functions change\<close>

lemmas lcd_prims = lcd_clear_def lcd_set_cursor_def lcd_data_def lcd_print_def
  lcd_create_char_def emit_def emits_def

lemma list_all_lcd_data: "list_all lcd_event (map (\<lambda>ch. LcdData (f ch)) str)"
  by (induction str) simp_all

lemma lcd_show_blank: "blank_display (lcd_show a b c s) = blank_display s"
  by (simp add: lcd_show_def Let_def blank_display_def lcd_prims)

lemma lcd_show_trace:
  "trace (lcd_show a b c s) = trace s @ new_events s (lcd_show a b c s)
   \<and> list_all lcd_event (new_events s (lcd_show a b c s))"
  by (simp add: lcd_show_def Let_def new_events_def lcd_prims list_all_lcd_data)

lemma load_expression_blank: "blank_display (load_expression l r s) = blank_display s"
  by (simp add: load_expression_def Let_def blank_display_def lcd_prims split: prod.splits)

lemma load_expression_trace:
  "trace (load_expression l r s) = trace s @ new_events s (load_expression l r s)
   \<and> list_all lcd_event (new_events s (load_expression l r s))"
  by (simp add: load_expression_def Let_def new_events_def lcd_prims split: prod.splits)

lemma load_mouth_blank: "blank_display (load_mouth m s) = blank_display s"
  by (simp add: load_mouth_def Let_def blank_display_def lcd_prims split: prod.splits)

lemma load_mouth_trace:
  "trace (load_mouth m s) = trace s @ new_events s (load_mouth m s)
   \<and> list_all lcd_event (new_events s (load_mouth m s))"
  by (simp add: load_mouth_def Let_def new_events_def lcd_prims split: prod.splits)

lemma lcd_show_eyes_Inr:
  assumes "lcd_show_eyes t e b m s = Inr s1"
  shows "blank_display s1 = blank_display s"
    and "trace s1 = trace s @ new_events s s1"
    and "list_all lcd_event (new_events s s1)"
  using assms
  by (auto simp: lcd_show_eyes_def Let_def blank_display_def new_events_def lcd_prims
      load_expression_def load_mouth_def list_all_lcd_data
      split: sum.splits prod.splits if_splits)

lemma eyes_state_no_bat: "\<exists>st. eyes_state t e [] m = Inr st"
  by (simp add: eyes_state_def Let_def split: prod.splits expr.splits)

lemma lcd_show_eyes_no_bat: "\<exists>s1. lcd_show_eyes t e [] m s = Inr s1"
proof -
  obtain st where "eyes_state t e [] m = Inr st"
    using eyes_state_no_bat by blast
  then show ?thesis
    by (simp add: lcd_show_eyes_def Let_def split: prod.splits)
qed

subsection \<open>C6: the easter egg\<close>

lemma last_pads_blank: "last_pads (blank_display s) = last_pads s"
  by (simp add: blank_display_def)

lemma check_easter_egg_window:
  "\<exists>s1. check_easter_egg i s = Inr (fst (egg_window (last_pads s) i), s1)
      \<and> last_pads s1 = snd (egg_window (last_pads s) i)"
proof (cases "fst (egg_window (last_pads s) i)")
  case False
  then show ?thesis
    by (auto simp: check_easter_egg_def egg_window_def Let_def split: if_splits)
next
  case True
  define s0 where "s0 = s\<lparr>last_pads := []\<rparr>"
  obtain s2 where s2: "lcd_show_eyes (Some EASTER_EGG_MSG) (Sym EyeHappy) [] None s0 = Inr s2"
    using lcd_show_eyes_no_bat by blast
  have "last_pads s2 = last_pads s0"
    using lcd_show_eyes_Inr(1) [OF s2] last_pads_blank by metis
  then have "last_pads (sleep 3.0 s2) = []"
    by (simp add: sleep_def s0_def)
  with True s2 show ?thesis
    by (auto simp: check_easter_egg_def egg_window_def Let_def s0_def split: if_splits)
qed

lemma check_easter_egg_True:
  assumes "check_easter_egg i s = Inr (True, s1)"
  shows "last_pads s1 = []
     \<and> (\<exists>evs. trace s1 = trace s @ evs @ [Sleep 3.0] \<and> list_all lcd_event evs)"
proof -
  define s0 where "s0 = s\<lparr>last_pads :=
      (if length (last_pads s @ [i]) > length EASTER_EGG_SEQ
       then drop (length (last_pads s @ [i]) - length EASTER_EGG_SEQ) (last_pads s @ [i])
       else last_pads s @ [i])\<rparr>\<lparr>last_pads := []\<rparr>"
  obtain s2 where s2: "lcd_show_eyes (Some EASTER_EGG_MSG) (Sym EyeHappy) [] None s0 = Inr s2"
    using lcd_show_eyes_no_bat by blast
  have s1: "s1 = sleep 3.0 s2"
    using assms s2 by (simp add: check_easter_egg_def Let_def s0_def split: if_splits)
  have lp: "last_pads s2 = last_pads s0"
    using lcd_show_eyes_Inr(1) [OF s2] last_pads_blank by metis
  have tr: "trace s2 = trace s @ new_events s0 s2"
    using lcd_show_eyes_Inr(2) [OF s2] by (simp add: s0_def)
  have "trace s1 = trace s @ new_events s0 s2 @ [Sleep 3.0]"
    by (simp add: s1 sleep_def tr)
  moreover have "last_pads s1 = []"
    using lp by (simp add: s1 sleep_def s0_def)
  ultimately show ?thesis
    using lcd_show_eyes_Inr(3) [OF s2] by blast
qed

lemma fire_pads_windows:
  "\<exists>s1. fire_pads is s = Inr (fst (egg_windows (last_pads s) is), s1)
      \<and> last_pads s1 = snd (egg_windows (last_pads s) is)"
proof (induction "is" arbitrary: s)
  case Nil
  then show ?case by simp
next
  case (Cons i rest)
  obtain s1 where s1: "check_easter_egg i s = Inr (fst (egg_window (last_pads s) i), s1)"
      "last_pads s1 = snd (egg_window (last_pads s) i)"
    using check_easter_egg_window by blast
  obtain s2 where s2: "fire_pads rest s1 = Inr (fst (egg_windows (last_pads s1) rest), s2)"
      "last_pads s2 = snd (egg_windows (last_pads s1) rest)"
    using Cons.IH by blast
  show ?case
    using s1 s2 by (simp add: Let_def split: prod.splits)
qed

lemma egg_eval:
  "egg_windows [] [0, 2, 4] = ([False, False, True], [])"
  "egg_windows [] [0, 2, 4, 4] = ([False, False, True, False], [4])"
  "egg_windows [] [2, 4, 0] = ([False, False, False], [2, 4, 0])"
  by (simp_all add: egg_window_def EASTER_EGG_SEQ_def Let_def)

text \<open>
  C6. With the secret sequence \<open>[0, 2, 4]\<close> and an empty window: firing pads 0, 2, 4
  returns the flags false, false, true, so the egg triggers at the third pad; firing
  0, 2, 4, 4 triggers it as well, at the third pad (the fourth starts a new window);
  firing 2, 4, 0 never triggers it. In any state, a call never raises, and when it
  returns true the window is empty and the celebration has been shown and held (the
  last event is the sleep of three seconds); the main loop, given true, returns without
  calling \<^verbatim>\<open>play_wav\<close>: all it added to the event log are display writes and that
  sleep.
\<close>

theorem C6_easter_egg:
  assumes "last_pads s = []"
  shows "(case fire_pads [0, 2, 4] s of
            Inl x \<Rightarrow> False
          | Inr (bs, s1) \<Rightarrow> bs = [False, False, True] \<and> last_pads s1 = [])
       \<and> (case fire_pads [0, 2, 4, 4] s of
            Inl x \<Rightarrow> False
          | Inr (bs, s1) \<Rightarrow> bs = [False, False, True, False] \<and> last_pads s1 = [4])
       \<and> (case fire_pads [2, 4, 0] s of
            Inl x \<Rightarrow> False
          | Inr (bs, s1) \<Rightarrow> bs = [False, False, False] \<and> last_pads s1 = [2, 4, 0])
       \<and> (case check_easter_egg i s' of
            Inl x \<Rightarrow> False
          | Inr (egg, s1) \<Rightarrow>
              (egg \<longrightarrow> last_pads s1 = [] \<and> last (trace s1) = Sleep 3.0))
       \<and> (case check_easter_egg i s' of
            Inl x \<Rightarrow> False
          | Inr (egg, s1) \<Rightarrow>
              (case egg_or_play i msg s' of
                 Inl x \<Rightarrow> \<not> egg
               | Inr s2 \<Rightarrow> egg \<longrightarrow> s2 = s1
                   \<and> list_all (\<lambda>e. lcd_event e \<or> e = Sleep 3.0) (new_events s' s2)))"
proof -
  have a: "case fire_pads [0, 2, 4] s of
            Inl x \<Rightarrow> False
          | Inr (bs, s1) \<Rightarrow> bs = [False, False, True] \<and> last_pads s1 = []"
    using fire_pads_windows [of "[0, 2, 4]" s] egg_eval(1) assms by auto
  have b: "case fire_pads [0, 2, 4, 4] s of
            Inl x \<Rightarrow> False
          | Inr (bs, s1) \<Rightarrow> bs = [False, False, True, False] \<and> last_pads s1 = [4]"
    using fire_pads_windows [of "[0, 2, 4, 4]" s] egg_eval(2) assms by auto
  have c: "case fire_pads [2, 4, 0] s of
            Inl x \<Rightarrow> False
          | Inr (bs, s1) \<Rightarrow> bs = [False, False, False] \<and> last_pads s1 = [2, 4, 0]"
    using fire_pads_windows [of "[2, 4, 0]" s] egg_eval(3) assms by auto
  obtain s1 where s1: "check_easter_egg i s' = Inr (fst (egg_window (last_pads s') i), s1)"
    using check_easter_egg_window by blast
  have d: "case check_easter_egg i s' of
            Inl x \<Rightarrow> False
          | Inr (egg, s1) \<Rightarrow>
              (egg \<longrightarrow> last_pads s1 = [] \<and> last (trace s1) = Sleep 3.0)"
    using s1 check_easter_egg_True [of i s' s1] by auto
  have e: "case check_easter_egg i s' of
            Inl x \<Rightarrow> False
          | Inr (egg, s1) \<Rightarrow>
              (case egg_or_play i msg s' of
                 Inl x \<Rightarrow> \<not> egg
               | Inr s2 \<Rightarrow> egg \<longrightarrow> s2 = s1
                   \<and> list_all (\<lambda>e. lcd_event e \<or> e = Sleep 3.0) (new_events s' s2))"
  proof (cases "fst (egg_window (last_pads s') i)")
    case False
    with s1 show ?thesis
      by (simp add: egg_or_play_def split: sum.splits)
  next
    case True
    then have t: "check_easter_egg i s' = Inr (True, s1)"
      using s1 by simp
    from check_easter_egg_True [OF t] obtain evs where
      evs: "trace s1 = trace s' @ evs @ [Sleep 3.0]" "list_all lcd_event evs"
      by blast
    have "list_all (\<lambda>e. lcd_event e \<or> e = Sleep 3.0) (new_events s' s1)"
      using evs by (simp add: new_events_def list_all_iff)
    with t show ?thesis
      by (simp add: egg_or_play_def)
  qed
  from a b c d e show ?thesis by blast
qed

theorem C6_easter_egg_witness:
  "last_pads fresh_dev = []
   \<and> fst (projr (fire_pads [0, 2, 4] fresh_dev)) = [False, False, True]
   \<and> fst (projr (fire_pads [0, 2, 4, 4] fresh_dev)) = [False, False, True, False]
   \<and> fst (projr (fire_pads [2, 4, 0] fresh_dev)) = [False, False, False]
   \<and> last_pads (snd (projr (fire_pads [0, 2, 4, 4] fresh_dev))) = [4]"
proof -
  have h: "last_pads fresh_dev = []"
    by (simp add: fresh_dev_def initial_dev_def)
  note inst = C6_easter_egg [OF h, of 4 fresh_dev "''Compost happens''"]
  have a: "fst (projr (fire_pads [0, 2, 4] fresh_dev)) = [False, False, True]"
    using inst [THEN conjunct1]
    by (cases "fire_pads [0, 2, 4] fresh_dev") auto
  have b: "fst (projr (fire_pads [0, 2, 4, 4] fresh_dev)) = [False, False, True, False]
      \<and> last_pads (snd (projr (fire_pads [0, 2, 4, 4] fresh_dev))) = [4]"
    using inst [THEN conjunct2, THEN conjunct1]
    by (cases "fire_pads [0, 2, 4, 4] fresh_dev") auto
  have c: "fst (projr (fire_pads [2, 4, 0] fresh_dev)) = [False, False, False]"
    using inst [THEN conjunct2, THEN conjunct2, THEN conjunct1]
    by (cases "fire_pads [2, 4, 0] fresh_dev") auto
  from h a b c show ?thesis by simp
qed

subsection \<open>C1: debouncing the touch pads\<close>















subsection \<open>C3: a redraw only for new content\<close>

lemma lcd_show_cases:
  "(Some (fit_line a LCD_COLS c) = last_lcd_1 s \<and> Some (fit_line b LCD_COLS c) = last_lcd_2 s
      \<and> lcd_show a b c s = s)
   \<or> (\<not> (Some (fit_line a LCD_COLS c) = last_lcd_1 s \<and> Some (fit_line b LCD_COLS c) = last_lcd_2 s)
      \<and> last_lcd_1 (lcd_show a b c s) = Some (fit_line a LCD_COLS c)
      \<and> last_lcd_2 (lcd_show a b c s) = Some (fit_line b LCD_COLS c)
      \<and> last_eye_state (lcd_show a b c s) = last_eye_state s
      \<and> hd (new_events s (lcd_show a b c s)) = LcdClear
      \<and> new_events s (lcd_show a b c s) \<noteq> [])"
  by (simp add: lcd_show_def Let_def new_events_def lcd_prims)

lemma lcd_show_twice: "lcd_show a b c (lcd_show a b c s) = lcd_show a b c s"
  by (simp add: lcd_show_def Let_def lcd_prims)

lemma lcd_show_eyes_cases:
  assumes "lcd_show_eyes t e b m s = Inr s1"
  shows "\<exists>st. eyes_state t e b m = Inr st
     \<and> ((Some st = last_eye_state s \<and> s1 = s)
        \<or> (Some st \<noteq> last_eye_state s \<and> last_eye_state s1 = Some st
           \<and> last_lcd_1 s1 = None \<and> last_lcd_2 s1 = None
           \<and> LcdClear \<in> set (new_events s s1)))"
  using assms
  by (auto simp: lcd_show_eyes_def Let_def new_events_def lcd_prims
      load_expression_def load_mouth_def
      split: sum.splits prod.splits if_splits)

lemma new_events_same: "new_events s s = []"
  by (simp add: new_events_def)

lemma render_step:
  assumes "render c s = Inr s1" "cached prev s"
  shows "\<exists>x. rendered c = Inr x
     \<and> (if wrote s s1 then prev \<noteq> Some x \<and> cached (Some x) s1
           \<and> LcdClear \<in> set (new_events s s1)
         else s1 = s)
     \<and> render c s1 = Inr s1"
proof (cases c)
  case (Show a b ce)
  have s1: "s1 = lcd_show a b ce s"
    using assms(1) Show by (simp add: render_def)
  have again: "lcd_show a b ce s1 = s1"
    by (simp add: s1 lcd_show_twice)
  show ?thesis
  proof (cases "Some (fit_line a LCD_COLS ce) = last_lcd_1 s \<and> Some (fit_line b LCD_COLS ce) = last_lcd_2 s")
    case True
    then have "s1 = s"
      using lcd_show_cases [of a ce s b] s1 by auto
    then show ?thesis
      using Show again by (simp add: rendered_def render_def wrote_def new_events_same)
  next
    case False
    then have f: "last_lcd_1 s1 = Some (fit_line a LCD_COLS ce)"
        "last_lcd_2 s1 = Some (fit_line b LCD_COLS ce)"
        "hd (new_events s s1) = LcdClear" "new_events s s1 \<noteq> []"
      using lcd_show_cases [of a ce s b] s1 by auto
    have ne: "prev \<noteq> Some (Text (fit_line a LCD_COLS ce) (fit_line b LCD_COLS ce))"
      using False assms(2) by auto
    have "LcdClear \<in> set (new_events s s1)"
      using f(3,4) hd_in_set by metis
    then show ?thesis
      using Show again f ne by (simp add: rendered_def render_def wrote_def)
  qed
next
  case (ShowEyes t e b m)
  have r: "lcd_show_eyes t e b m s = Inr s1"
    using assms(1) ShowEyes by (simp add: render_def)
  from lcd_show_eyes_cases [OF r] obtain st where st: "eyes_state t e b m = Inr st"
      "(Some st = last_eye_state s \<and> s1 = s)
        \<or> (Some st \<noteq> last_eye_state s \<and> last_eye_state s1 = Some st
           \<and> last_lcd_1 s1 = None \<and> last_lcd_2 s1 = None
           \<and> LcdClear \<in> set (new_events s s1))"
    by blast
  have les: "last_eye_state s1 = Some st"
    using st(2) by auto
  have again: "lcd_show_eyes t e b m s1 = Inr s1"
    using st(1) les by (simp add: lcd_show_eyes_def)
  show ?thesis
  proof (cases "Some st = last_eye_state s")
    case True
    then have "s1 = s"
      using st(2) by auto
    then show ?thesis
      using ShowEyes st(1) again by (simp add: rendered_def render_def wrote_def new_events_same)
  next
    case False
    then have f: "last_eye_state s1 = Some st" "LcdClear \<in> set (new_events s s1)"
      using st(2) by auto
    have ne: "prev \<noteq> Some (Face st)"
      using False assms(2) by auto
    from f(2) have "new_events s s1 \<noteq> []"
      by auto
    then show ?thesis
      using ShowEyes st(1) again f ne by (simp add: rendered_def render_def wrote_def)
  qed
qed

lemma redraws_distinct_adj:
  "cached prev s \<Longrightarrow> distinct_adj ((case prev of None \<Rightarrow> [] | Some x \<Rightarrow> [x]) @ redraws cs s)"
proof (induction cs arbitrary: s prev)
  case Nil
  then show ?case by (simp split: option.splits)
next
  case (Cons c cs)
  show ?case
  proof (cases "render c s")
    case (Inl e)
    then show ?thesis by (simp split: option.splits)
  next
    case (Inr s1)
    from render_step [OF Inr Cons.prems] obtain x where x: "rendered c = Inr x"
      "if wrote s s1 then prev \<noteq> Some x \<and> cached (Some x) s1
           \<and> LcdClear \<in> set (new_events s s1)
         else s1 = s"
      by blast
    show ?thesis
    proof (cases "wrote s s1")
      case True
      then have "cached (Some x) s1" "prev \<noteq> Some x"
        using x(2) by simp_all
      from Cons.IH [OF this(1)] this(2) Inr x(1) True show ?thesis
        by (cases prev) (simp_all add: distinct_adj_Cons)
    next
      case False
      then have "s1 = s"
        using x(2) by simp
      with Cons.IH [OF Cons.prems] Inr False show ?thesis
        by simp
    qed
  qed
qed

text \<open>
  C3. For any list of calls of \<^verbatim>\<open>lcd_show\<close> and \<^verbatim>\<open>lcd_show_eyes\<close> from any state,
  no two redraws that follow one another have the same content (the fitted pair of
  lines, or the state tuple of the face). A call either writes, and then clears the
  display, or changes nothing at all; the same call made again at once writes nothing.
  So the same content rendered twice in a row is written at most once, and exactly once
  when the caches were empty before (as \<^verbatim>\<open>lcd_reset\<close> leaves them); a call that
  raises writes nothing.
\<close>

theorem C3_change_detection:
  "distinct_adj (redraws cs s)
   \<and> (case render c s of
         Inl e \<Rightarrow> True
       | Inr s1 \<Rightarrow>
           (if wrote s s1 then LcdClear \<in> set (new_events s s1) else s1 = s)
           \<and> render c s1 = Inr s1 \<and> \<not> wrote s1 s1)
   \<and> length (redraws [c, c] s) \<le> 1
   \<and> (last_lcd_1 s = None \<and> last_eye_state s = None \<longrightarrow>
        (case rendered c of Inl e \<Rightarrow> redraws [c, c] s = [] | Inr x \<Rightarrow> redraws [c, c] s = [x]))"
proof -
  have a: "distinct_adj (redraws cs s)"
    using redraws_distinct_adj [of None s cs] by simp
  have nw: "\<And>t. \<not> wrote t t"
    by (simp add: wrote_def new_events_same)
  have b: "case render c s of
         Inl e \<Rightarrow> True
       | Inr s1 \<Rightarrow>
           (if wrote s s1 then LcdClear \<in> set (new_events s s1) else s1 = s)
           \<and> render c s1 = Inr s1 \<and> \<not> wrote s1 s1"
  proof (cases "render c s")
    case (Inl e)
    then show ?thesis by simp
  next
    case (Inr s1)
    from render_step [OF Inr, of None] Inr nw show ?thesis
      by (auto split: if_splits)
  qed
  have two: "redraws [c, c] s =
      (case render c s of
         Inl e \<Rightarrow> []
       | Inr s1 \<Rightarrow> if wrote s s1 then (case rendered c of Inl e \<Rightarrow> [] | Inr x \<Rightarrow> [x]) else [])"
  proof (cases "render c s")
    case (Inl e)
    then show ?thesis by simp
  next
    case (Inr s1)
    from render_step [OF Inr, of None] have "render c s1 = Inr s1"
      by auto
    with Inr nw show ?thesis by simp
  qed
  have c: "length (redraws [c, c] s) \<le> 1"
    unfolding two by (simp split: sum.splits)
  have d: "last_lcd_1 s = None \<and> last_eye_state s = None \<longrightarrow>
        (case rendered c of Inl e \<Rightarrow> redraws [c, c] s = [] | Inr x \<Rightarrow> redraws [c, c] s = [x])"
  proof
    assume n: "last_lcd_1 s = None \<and> last_eye_state s = None"
    show "case rendered c of Inl e \<Rightarrow> redraws [c, c] s = [] | Inr x \<Rightarrow> redraws [c, c] s = [x]"
    proof (cases c)
      case (Show l1 l2 ce)
      have "wrote s (lcd_show l1 l2 ce s)"
        using lcd_show_cases [of l1 ce s l2] n by (auto simp: wrote_def)
      then show ?thesis
        unfolding two using Show by (simp add: render_def rendered_def)
    next
      case (ShowEyes t e bt m)
      show ?thesis
      proof (cases "eyes_state t e bt m")
        case (Inl x)
        then show ?thesis
          unfolding two using ShowEyes by (simp add: render_def rendered_def lcd_show_eyes_def)
      next
        case (Inr st)
        then have "\<exists>s1. lcd_show_eyes t e bt m s = Inr s1"
          by (simp add: lcd_show_eyes_def Let_def split: prod.splits)
        then obtain s1 where s1: "lcd_show_eyes t e bt m s = Inr s1"
          by blast
        from lcd_show_eyes_cases [OF s1] n Inr have "LcdClear \<in> set (new_events s s1)"
          by auto
        then have "wrote s s1"
          by (auto simp: wrote_def)
        then show ?thesis
          unfolding two using ShowEyes Inr s1 by (simp add: render_def rendered_def)
      qed
    qed
  qed
  from a b c d show ?thesis by blast
qed

theorem C3_change_detection_witness:
  "last_lcd_1 fresh_dev = None \<and> last_eye_state fresh_dev = None
   \<and> redraws [Show (Some ''Booting...'') (Some ''please wait'') True,
               Show (Some ''Booting...'') (Some ''please wait'') True] fresh_dev
       = [Text ''     Booting...     '' ''    please wait     '']
   \<and> redraws [ShowEyes (Some ''Touch a panel'') (Sym EyeCenter) ''85%'' None,
               ShowEyes (Some ''Touch a panel'') (Sym EyeCenter) ''85%'' None] fresh_dev
       = [Face (EyeCenter, None, MouthNeutral, ''85%'', ''Touch a panel    85%'')]"
proof -
  have h: "last_lcd_1 fresh_dev = None \<and> last_eye_state fresh_dev = None"
    by (simp add: fresh_dev_def initial_dev_def)
  have r1: "rendered (Show (Some ''Booting...'') (Some ''please wait'') True)
      = Inr (Text ''     Booting...     '' ''    please wait     '')"
    by code_simp
  have r2: "rendered (ShowEyes (Some ''Touch a panel'') (Sym EyeCenter) ''85%'' None)
      = Inr (Face (EyeCenter, None, MouthNeutral, ''85%'', ''Touch a panel    85%''))"
    by code_simp
  from C3_change_detection [of "[]" fresh_dev
      "Show (Some ''Booting...'') (Some ''please wait'') True"] h r1
  have a: "redraws [Show (Some ''Booting...'') (Some ''please wait'') True,
               Show (Some ''Booting...'') (Some ''please wait'') True] fresh_dev
       = [Text ''     Booting...     '' ''    please wait     '']"
    by simp
  from C3_change_detection [of "[]" fresh_dev
      "ShowEyes (Some ''Touch a panel'') (Sym EyeCenter) ''85%'' None"] h r2
  have b: "redraws [ShowEyes (Some ''Touch a panel'') (Sym EyeCenter) ''85%'' None,
               ShowEyes (Some ''Touch a panel'') (Sym EyeCenter) ''85%'' None] fresh_dev
       = [Face (EyeCenter, None, MouthNeutral, ''85%'', ''Touch a panel    85%'')]"
    by simp
  from h a b show ?thesis by simp
qed

subsection \<open>C2: playback of a missing file\<close>

lemma blank_display_fields:
  assumes "blank_display s1 = blank_display s"
  shows "sd_files s1 = sd_files s" "amp_en s1 = amp_en s" "clock s1 = clock s"
    "nvm s1 = nvm s" "interaction_count s1 = interaction_count s"
    "interaction_pending s1 = interaction_pending s" "audio_left s1 = audio_left s"
    "reset_btn s1 = reset_btn s" "reset_btn_i s1 = reset_btn_i s"
    "backlight_on s1 = backlight_on s" "eye_idx s1 = eye_idx s"
proof -
  have "sd_files (blank_display s1) = sd_files (blank_display s)"
    "amp_en (blank_display s1) = amp_en (blank_display s)"
    "clock (blank_display s1) = clock (blank_display s)"
    "nvm (blank_display s1) = nvm (blank_display s)"
    "interaction_count (blank_display s1) = interaction_count (blank_display s)"
    "interaction_pending (blank_display s1) = interaction_pending (blank_display s)"
    "audio_left (blank_display s1) = audio_left (blank_display s)"
    "reset_btn (blank_display s1) = reset_btn (blank_display s)"
    "reset_btn_i (blank_display s1) = reset_btn_i (blank_display s)"
    "backlight_on (blank_display s1) = backlight_on (blank_display s)"
    "eye_idx (blank_display s1) = eye_idx (blank_display s)"
    using assms by simp_all
  then show "sd_files s1 = sd_files s" "amp_en s1 = amp_en s" "clock s1 = clock s"
    "nvm s1 = nvm s" "interaction_count s1 = interaction_count s"
    "interaction_pending s1 = interaction_pending s" "audio_left s1 = audio_left s"
    "reset_btn s1 = reset_btn s" "reset_btn_i s1 = reset_btn_i s"
    "backlight_on s1 = backlight_on s" "eye_idx s1 = eye_idx s"
    by (simp_all add: blank_display_def)
qed

lemma current_eye_Inr:
  assumes "current_eye s = Inr (e, s1)"
  shows "trace s1 = trace s" "blank_display s1 = blank_display (s\<lparr>eye_idx := eye_idx s1, eye_t := eye_t s1\<rparr>)"
  using assms
  by (auto simp: current_eye_def Let_def blank_display_def split: if_splits prod.splits)

lemma current_eye_ok:
  "eye_idx s < length EYE_SEQUENCE \<Longrightarrow> \<exists>e s1. current_eye s = Inr (e, s1)"
  by (simp add: current_eye_def Let_def split: prod.splits)

lemma current_eye_Inl: "current_eye s = Inl (x, s1) \<Longrightarrow> x = IndexError"
  by (auto simp: current_eye_def Let_def split: if_splits prod.splits)

lemma lcd_show_eyes_Inl: "lcd_show_eyes t e b m s = Inl (x, s1) \<Longrightarrow> b \<noteq> [] \<and> x = TypeError"
  by (auto simp: lcd_show_eyes_def eyes_state_def lcd_line_def Let_def
      split: sum.splits prod.splits if_splits option.splits expr.splits)

lemma lcd_playing_Inl: "lcd_playing label ex s = Inl (x, s1) \<Longrightarrow> x = IndexError"
  using current_eye_Inl lcd_show_eyes_Inl
  by (fastforce simp: lcd_playing_def split: option.splits sum.splits prod.splits)

lemma lcd_playing_ok:
  assumes "ex = None \<longrightarrow> eye_idx s < length EYE_SEQUENCE"
  shows "\<exists>s1. lcd_playing label ex s = Inr s1"
proof (cases ex)
  case None
  then obtain e s0 where "current_eye s = Inr (e, s0)"
    using assms current_eye_ok by blast
  then show ?thesis
    using None lcd_show_eyes_no_bat [of "Some label" e "Some MouthOpen" s0]
    by (simp add: lcd_playing_def)
next
  case (Some e)
  then show ?thesis
    using lcd_show_eyes_no_bat [of "Some label" e "Some MouthOpen" s]
    by (simp add: lcd_playing_def)
qed

lemma lcd_playing_Inr:
  assumes "lcd_playing label ex s = Inr s1"
  shows "trace s1 = trace s @ new_events s s1" "list_all lcd_event (new_events s s1)"
    "sd_files s1 = sd_files s" "amp_en s1 = amp_en s"
proof -
  have "\<exists>s0 e. trace s0 = trace s \<and> sd_files s0 = sd_files s \<and> amp_en s0 = amp_en s
      \<and> lcd_show_eyes (Some label) e [] (Some MouthOpen) s0 = Inr s1"
  proof (cases ex)
    case None
    then obtain e s0 where c: "current_eye s = Inr (e, s0)"
        and l: "lcd_show_eyes (Some label) e [] (Some MouthOpen) s0 = Inr s1"
      using assms by (auto simp: lcd_playing_def split: sum.splits)
    have "sd_files s0 = sd_files s" "amp_en s0 = amp_en s"
      using blank_display_fields(1,2) [OF current_eye_Inr(2) [OF c]] by simp_all
    with current_eye_Inr(1) [OF c] l show ?thesis by blast
  next
    case (Some e)
    then show ?thesis using assms by (auto simp: lcd_playing_def)
  qed
  then obtain s0 e where s0: "trace s0 = trace s" "sd_files s0 = sd_files s"
      "amp_en s0 = amp_en s" "lcd_show_eyes (Some label) e [] (Some MouthOpen) s0 = Inr s1"
    by blast
  have ne: "new_events s s1 = new_events s0 s1"
    using s0(1) by (simp add: new_events_def)
  show "trace s1 = trace s @ new_events s s1"
    using lcd_show_eyes_Inr(2) [OF s0(4)] s0(1) ne by simp
  show "list_all lcd_event (new_events s s1)"
    using lcd_show_eyes_Inr(3) [OF s0(4)] ne by simp
  show "sd_files s1 = sd_files s" "amp_en s1 = amp_en s"
    using blank_display_fields(1,2) [OF lcd_show_eyes_Inr(1) [OF s0(4)]] s0(2,3) by simp_all
qed

lemma play_wav_missing:
  assumes "sd_files s path = Inl OSError"
    and "ex = None \<longrightarrow> eye_idx s < length EYE_SEQUENCE"
  shows "\<exists>s1 pre screen. play_wav path label allow ex s = Inr s1
     \<and> trace s1 = trace s @ pre @ [AmpEn True, Sleep 0.15, AmpEn False] @ screen @ [Sleep 1.2]
     \<and> list_all before_amp pre \<and> list_all lcd_event screen
     \<and> \<not> amp_en s1
     \<and> last_lcd_1 s1 = Some (fit_line (Some ''Missing file'') LCD_COLS False)
     \<and> last_lcd_2 s1 = Some (fit_line (Some (last_component path)) LCD_COLS False)"
proof -
  define sa where "sa = s\<lparr>last_activity := clock s\<rparr>"
  define playing where "playing = fst (audio_playing sa)"
  define sb where "sb = snd (audio_playing sa)"
  define sc where "sc = (if playing then sleep 0.05 (audio_stop sb) else sb)"
  define pre0 where "pre0 = (if playing then [AudioStop, Sleep 0.05] else [])"
  have sc: "trace sc = trace s @ pre0" "sd_files sc = sd_files s" "eye_idx sc = eye_idx s"
    by (simp_all add: sc_def sb_def sa_def pre0_def audio_playing_def audio_stop_def
        sleep_def emit_def)
  have p0: "list_all before_amp pre0"
    by (simp add: pre0_def before_amp_def)
  obtain sd where sd: "lcd_playing label ex sc = Inr sd"
    using lcd_playing_ok [of ex sc label] assms(2) sc(3) by auto
  note d = lcd_playing_Inr [OF sd]
  define se where "se = sleep 0.15 (set_amp_en True sd)"
  have se: "trace se = trace sd @ [AmpEn True, Sleep 0.15]" "sd_files se = sd_files s"
    using d(3) sc(2) by (simp_all add: se_def sleep_def set_amp_en_def emit_def)
  define sf where "sf = set_amp_en False se"
  define sg where "sg = lcd_missing (last_component path) sf"
  define s1 where "s1 = sleep 1.2 sg"
  have pw: "play_wav path label allow ex s = Inr s1"
    using sd se(2) assms(1)
    unfolding s1_def sg_def sf_def se_def sc_def sb_def playing_def sa_def
    by (simp add: play_wav_def Let_def split_def play_wav_except_def)
  have sf: "trace sf = trace se @ [AmpEn False]" "\<not> amp_en sf"
    by (simp_all add: sf_def set_amp_en_def emit_def)
  have sg: "trace sg = trace sf @ new_events sf sg" "list_all lcd_event (new_events sf sg)"
    using lcd_show_trace [of "Some ''Missing file''" "Some (last_component path)" False sf]
    by (simp_all add: sg_def lcd_missing_def)
  have amp: "amp_en sg = amp_en sf"
    using blank_display_fields(2) [OF lcd_show_blank
        [of "Some ''Missing file''" "Some (last_component path)" False sf]]
    by (simp add: sg_def lcd_missing_def)
  have lines: "last_lcd_1 sg = Some (fit_line (Some ''Missing file'') LCD_COLS False)"
      "last_lcd_2 sg = Some (fit_line (Some (last_component path)) LCD_COLS False)"
    using lcd_show_cases [of "Some ''Missing file''" False sf "Some (last_component path)"]
    by (auto simp: sg_def lcd_missing_def)
  have tr: "trace s1 = trace s @ (pre0 @ new_events sc sd)
      @ [AmpEn True, Sleep 0.15, AmpEn False] @ new_events sf sg @ [Sleep 1.2]"
    using sc(1) d(1) se(1) sf(1) sg(1) by (simp add: s1_def sleep_def)
  have pre: "list_all before_amp (pre0 @ new_events sc sd)"
    using p0 d(2) by (auto simp: list_all_iff before_amp_def)
  have fin: "\<not> amp_en s1"
      "last_lcd_1 s1 = Some (fit_line (Some ''Missing file'') LCD_COLS False)"
      "last_lcd_2 s1 = Some (fit_line (Some (last_component path)) LCD_COLS False)"
    using amp sf(2) lines by (simp_all add: s1_def sleep_def)
  from pw tr pre sg(2) fin show ?thesis
    by blast
qed

lemma dropWhile_skip:
  "list_all (\<lambda>e. e \<noteq> x) pre \<Longrightarrow> dropWhile (\<lambda>e. e \<noteq> x) (pre @ x # rest) = x # rest"
  by (induction pre) simp_all

lemma before_amp_not:
  "list_all before_amp pre \<Longrightarrow> list_all (\<lambda>e. e \<noteq> AmpEn False) pre
     \<and> list_all (\<lambda>e. e \<noteq> Sleep 1.2) pre \<and> list_all (\<lambda>e. e \<noteq> AmpEn True) pre"
  by (auto simp: list_all_iff before_amp_def)

lemma lcd_event_not:
  "list_all lcd_event evs \<Longrightarrow> list_all (\<lambda>e. e \<noteq> Sleep 1.2) evs \<and> AmpEn False \<notin> set evs"
  by (auto simp: list_all_iff)

lemma missing_order:
  assumes "list_all before_amp pre" "list_all lcd_event screen"
  shows "amp_off_before_dwell (pre @ [AmpEn True, Sleep 0.15, AmpEn False] @ screen @ [Sleep 1.2])"
    and "\<not> dwell_before_amp_off (pre @ [AmpEn True, Sleep 0.15, AmpEn False] @ screen @ [Sleep 1.2])"
proof -
  have a: "list_all (\<lambda>e. e \<noteq> AmpEn False) (pre @ [AmpEn True, Sleep 0.15])"
    using before_amp_not [OF assms(1)] by simp
  have "dropWhile (\<lambda>e. e \<noteq> AmpEn False) ((pre @ [AmpEn True, Sleep 0.15]) @ AmpEn False # screen @ [Sleep 1.2])
      = AmpEn False # screen @ [Sleep 1.2]"
    by (rule dropWhile_skip [OF a])
  then show "amp_off_before_dwell (pre @ [AmpEn True, Sleep 0.15, AmpEn False] @ screen @ [Sleep 1.2])"
    by (simp add: amp_off_before_dwell_def)
  have b: "list_all (\<lambda>e. e \<noteq> Sleep 1.2) (pre @ [AmpEn True, Sleep 0.15, AmpEn False] @ screen)"
    using before_amp_not [OF assms(1)] lcd_event_not [OF assms(2)] by simp
  have "dropWhile (\<lambda>e. e \<noteq> Sleep 1.2) ((pre @ [AmpEn True, Sleep 0.15, AmpEn False] @ screen) @ Sleep 1.2 # [])
      = [Sleep 1.2]"
    by (rule dropWhile_skip [OF b])
  then show "\<not> dwell_before_amp_off (pre @ [AmpEn True, Sleep 0.15, AmpEn False] @ screen @ [Sleep 1.2])"
    by (simp add: dwell_before_amp_off_def)
qed

lemma play_wav_missing_order:
  assumes "sd_files s path = Inl OSError"
    and "ex = None \<longrightarrow> eye_idx s < length EYE_SEQUENCE"
  shows "case play_wav path label allow ex s of
           Inl x \<Rightarrow> False
         | Inr s1 \<Rightarrow>
             trace s1 = trace s @ new_events s s1
             \<and> (\<exists>pre screen.
                  new_events s s1
                    = pre @ [AmpEn True, Sleep 0.15, AmpEn False] @ screen @ [Sleep 1.2]
                  \<and> list_all before_amp pre \<and> list_all lcd_event screen)
             \<and> amp_off_before_dwell (new_events s s1)
             \<and> \<not> dwell_before_amp_off (new_events s s1)
             \<and> last (new_events s s1) = Sleep 1.2
             \<and> \<not> amp_en s1
             \<and> last_lcd_1 s1 = Some (fit_line (Some ''Missing file'') LCD_COLS False)
             \<and> last_lcd_2 s1 = Some (fit_line (Some (last_component path)) LCD_COLS False)"
proof -
  from play_wav_missing [OF assms, of label allow] obtain s1 pre screen where
    r: "play_wav path label allow ex s = Inr s1"
      "trace s1 = trace s @ pre @ [AmpEn True, Sleep 0.15, AmpEn False] @ screen @ [Sleep 1.2]"
      "list_all before_amp pre" "list_all lcd_event screen" "\<not> amp_en s1"
      "last_lcd_1 s1 = Some (fit_line (Some ''Missing file'') LCD_COLS False)"
      "last_lcd_2 s1 = Some (fit_line (Some (last_component path)) LCD_COLS False)"
    by blast
  have ne: "new_events s s1 = pre @ [AmpEn True, Sleep 0.15, AmpEn False] @ screen @ [Sleep 1.2]"
    by (simp add: new_events_def r(2))
  have tr: "trace s1 = trace s @ new_events s s1"
    by (simp add: ne r(2))
  have la: "last (new_events s s1) = Sleep 1.2"
    by (simp add: ne)
  have ex: "\<exists>pre screen.
                  new_events s s1
                    = pre @ [AmpEn True, Sleep 0.15, AmpEn False] @ screen @ [Sleep 1.2]
                  \<and> list_all before_amp pre \<and> list_all lcd_event screen"
    using ne r(3,4) by blast
  have o1: "amp_off_before_dwell (new_events s s1)"
    unfolding ne by (rule missing_order(1) [OF r(3,4)])
  have o2: "\<not> dwell_before_amp_off (new_events s s1)"
    unfolding ne by (rule missing_order(2) [OF r(3,4)])
  from tr ex o1 o2 la r(5,6,7) show ?thesis
    by (simp add: r(1))
qed

lemma play_wav_no_OSError:
  "play_wav path label allow ex s = Inl (x, s1) \<Longrightarrow> x \<noteq> OSError"
  using lcd_playing_Inl
  by (fastforce simp: play_wav_def Let_def split_def split: sum.splits if_splits)

lemma fresh_dev_missing:
  "sd_files fresh_dev ''/sd/Sounds/Tip2.wav'' = Inl OSError"
  "Some (Sym EyeCenter) = None \<longrightarrow> eye_idx fresh_dev < length EYE_SEQUENCE"
  by (simp_all add: fresh_dev_def initial_dev_def)

text \<open>
  C2, as the code has it. When opening the file raises \<^verbatim>\<open>OSError\<close> (and the
  animation cursor is inside its sequence, should the call need it), \<^verbatim>\<open>play_wav\<close>
  returns normally. What it adds to the event log is: display writes and perhaps the
  stop of an earlier sound; the amplifier enabled and the settle delay; the amplifier
  disabled; the writes of the missing-file screen, if it is not on the display already;
  the sleep of 1.2 s. So the output stage is disabled first and the screen shown and held
  afterwards, not the other way round. At the end the amplifier is off and the plain view
  holds "Missing file" and the file's name. In any state and for any file, the exception
  that leaves \<^verbatim>\<open>play_wav\<close>, if one does, is not \<^verbatim>\<open>OSError\<close>.
\<close>

theorem C2_missing_file:
  assumes "sd_files s path = Inl OSError"
    and "ex = None \<longrightarrow> eye_idx s < length EYE_SEQUENCE"
  shows "(case play_wav path label allow ex s of
           Inl x \<Rightarrow> False
         | Inr s1 \<Rightarrow>
             trace s1 = trace s @ new_events s s1
             \<and> (\<exists>pre screen.
                  new_events s s1
                    = pre @ [AmpEn True, Sleep 0.15, AmpEn False] @ screen @ [Sleep 1.2]
                  \<and> list_all before_amp pre \<and> list_all lcd_event screen)
             \<and> amp_off_before_dwell (new_events s s1)
             \<and> \<not> dwell_before_amp_off (new_events s s1)
             \<and> last (new_events s s1) = Sleep 1.2
             \<and> \<not> amp_en s1
             \<and> last_lcd_1 s1 = Some (fit_line (Some ''Missing file'') LCD_COLS False)
             \<and> last_lcd_2 s1 = Some (fit_line (Some (last_component path)) LCD_COLS False))
       \<and> (case play_wav path' label' allow' ex' s' of
             Inl (x, s1) \<Rightarrow> x \<noteq> OSError
           | Inr s1 \<Rightarrow> True)"
proof -
  have "case play_wav path' label' allow' ex' s' of
             Inl (x, s1) \<Rightarrow> x \<noteq> OSError
           | Inr s1 \<Rightarrow> True"
    using play_wav_no_OSError [of path' label' allow' ex' s']
    by (auto split: sum.splits)
  with play_wav_missing_order [OF assms, of label allow] show ?thesis
    by blast
qed

theorem C2_missing_file_witness:
  "sd_files fresh_dev ''/sd/Sounds/Tip3.wav'' = Inl OSError
   \<and> eye_idx fresh_dev < length EYE_SEQUENCE
   \<and> \<not> isl (play_wav ''/sd/Sounds/Tip3.wav'' ''Skip the straw'' True None fresh_dev)
   \<and> last (new_events fresh_dev
        (projr (play_wav ''/sd/Sounds/Tip3.wav'' ''Skip the straw'' True None fresh_dev)))
       = Sleep 1.2
   \<and> \<not> amp_en (projr (play_wav ''/sd/Sounds/Tip3.wav'' ''Skip the straw'' True None fresh_dev))
   \<and> last_lcd_2 (projr (play_wav ''/sd/Sounds/Tip3.wav'' ''Skip the straw'' True None fresh_dev))
       = Some ''Tip3.wav            ''"
proof -
  have h: "sd_files fresh_dev ''/sd/Sounds/Tip3.wav'' = Inl OSError"
      "None = (None :: expr option) \<longrightarrow> eye_idx fresh_dev < length EYE_SEQUENCE"
    by (simp_all add: fresh_dev_def initial_dev_def EYE_SEQUENCE_def)
  have f: "fit_line (Some (last_component ''/sd/Sounds/Tip3.wav'')) LCD_COLS False
      = ''Tip3.wav            ''"
    by code_simp
  from C2_missing_file [OF h, of "''Skip the straw''" True] h f show ?thesis
    by (cases "play_wav ''/sd/Sounds/Tip3.wav'' ''Skip the straw'' True None fresh_dev")
       simp_all
qed

text \<open>
  C2 as stated has the missing-file screen held before the output stage is disabled. On
  a device with no file, playing \<^verbatim>\<open>/sd/Sounds/Tip2.wav\<close> returns, and in its events
  the amplifier is not disabled at or after the sleep of 1.2 s: it is disabled before.
\<close>

theorem C2_dwell_before_amp_off_counterexample:
  "sd_files fresh_dev ''/sd/Sounds/Tip2.wav'' = Inl OSError
   \<and> \<not> isl (play_wav ''/sd/Sounds/Tip2.wav'' ''Compost happens'' True (Some (Sym EyeCenter))
        fresh_dev)
   \<and> \<not> dwell_before_amp_off (new_events fresh_dev
        (projr (play_wav ''/sd/Sounds/Tip2.wav'' ''Compost happens'' True
           (Some (Sym EyeCenter)) fresh_dev)))
   \<and> amp_off_before_dwell (new_events fresh_dev
        (projr (play_wav ''/sd/Sounds/Tip2.wav'' ''Compost happens'' True
           (Some (Sym EyeCenter)) fresh_dev)))"
  using play_wav_missing_order [OF fresh_dev_missing, of "''Compost happens''" True]
    fresh_dev_missing(1)
  by (cases "play_wav ''/sd/Sounds/Tip2.wav'' ''Compost happens'' True (Some (Sym EyeCenter))
        fresh_dev") simp_all

subsection \<open>C5: the counter is flushed before the power-off disables the output\<close>

lemma flushed_quiet_append:
  "list_all quiet xs \<Longrightarrow> flushed_at_amp_off bs fl (xs @ ys) = flushed_at_amp_off bs fl ys"
proof (induction xs)
  case Nil
  then show ?case by simp
next
  case (Cons x xs)
  then show ?case by (cases x) simp_all
qed

lemma flushed_quiet: "list_all quiet xs \<Longrightarrow> flushed_at_amp_off bs fl xs"
  using flushed_quiet_append [of xs bs fl "[]"] by simp

lemma lcd_event_quiet: "lcd_event e \<Longrightarrow> quiet e"
  by (cases e) simp_all

lemma list_all_lcd_quiet: "list_all lcd_event xs \<Longrightarrow> list_all quiet xs"
  by (induction xs) (simp_all add: lcd_event_quiet)

lemma save_count_bytes:
  assumes "0 \<le> interaction_count s" "interaction_count s < 4294967296"
  shows "save_interaction_count s =
           Inr (s\<lparr>interaction_pending := 0, nvm := count_bytes s @ drop 4 (nvm s),
                   trace := trace s @ [NvmWrite (count_bytes s)]\<rparr>)"
    and "length (count_bytes s) = 4"
    and "from_bytes_little (count_bytes s) = interaction_count s"
proof -
  have cb: "count_bytes s = [word_of_int (interaction_count s),
      word_of_int (interaction_count s div 256), word_of_int (interaction_count s div 65536),
      word_of_int (interaction_count s div 16777216)]"
    using assms by (simp add: count_bytes_def to_bytes_little4)
  show "length (count_bytes s) = 4"
    by (simp add: cb)
  show "from_bytes_little (count_bytes s) = interaction_count s"
    unfolding cb by (rule from_to_bytes [OF assms])
  show "save_interaction_count s =
           Inr (s\<lparr>interaction_pending := 0, nvm := count_bytes s @ drop 4 (nvm s),
                   trace := trace s @ [NvmWrite (count_bytes s)]\<rparr>)"
    using assms by (simp add: cb save_interaction_count_def to_bytes_little4 emit_def)
qed

lemma set_backlight_trace:
  "\<exists>evs. trace (set_backlight b s) = trace s @ evs \<and> list_all lcd_event evs"
  by (simp add: set_backlight_def emit_def)

lemma set_backlight_blank: "blank_display (set_backlight b s) = blank_display (s\<lparr>backlight_on := b\<rparr>)"
  by (auto simp: set_backlight_def emit_def blank_display_def)

lemma power_off_shutdown_effect:
  assumes "0 \<le> interaction_count s" "interaction_count s < 4294967296"
  shows "\<exists>s1 evs. power_off_shutdown s = Inr s1
     \<and> trace s1 = trace s @ [NvmWrite (count_bytes s), AmpEn False] @ evs
     \<and> list_all quiet evs
     \<and> interaction_pending s1 = 0 \<and> interaction_count s1 = interaction_count s
     \<and> nvm s1 = count_bytes s @ drop 4 (nvm s) \<and> \<not> amp_en s1
     \<and> reset_btn s1 = reset_btn s \<and> reset_btn_i s1 = reset_btn_i s"
proof -
  define sa where "sa = s\<lparr>interaction_pending := 0, nvm := count_bytes s @ drop 4 (nvm s),
                   trace := trace s @ [NvmWrite (count_bytes s)]\<rparr>"
  define sb where "sb = set_amp_en False sa"
  define playing where "playing = fst (audio_playing sb)"
  define sc where "sc = snd (audio_playing sb)"
  define sd where "sd = (if playing then audio_stop sc else sc)"
  define se where "se = lcd_show (Some ''Powering off...'') (Some []) True sd"
  define sf where "sf = sleep 2.0 se"
  define sg where "sg = lcd_clear sf"
  define s1 where "s1 = set_backlight False sg"
  have po: "power_off_shutdown s = Inr s1"
    unfolding s1_def sg_def sf_def se_def sd_def sc_def playing_def sb_def sa_def
    by (simp add: power_off_shutdown_def save_count_bytes(1) [OF assms] Let_def split_def)
  define e1 where "e1 = (if playing then [AudioStop] else [])"
  have sd: "trace sd = trace s @ [NvmWrite (count_bytes s), AmpEn False] @ e1"
      "interaction_pending sd = 0" "interaction_count sd = interaction_count s"
      "nvm sd = count_bytes s @ drop 4 (nvm s)" "\<not> amp_en sd"
      "reset_btn sd = reset_btn s" "reset_btn_i sd = reset_btn_i s"
    by (simp_all add: sd_def sc_def sb_def sa_def e1_def audio_playing_def audio_stop_def
        set_amp_en_def emit_def)
  note bl = blank_display_fields [OF lcd_show_blank [of "Some ''Powering off...''" "Some []" True sd]]
  have se: "trace se = trace sd @ new_events sd se" "list_all lcd_event (new_events sd se)"
      "interaction_pending se = 0" "interaction_count se = interaction_count s"
      "nvm se = count_bytes s @ drop 4 (nvm s)" "\<not> amp_en se"
      "reset_btn se = reset_btn s" "reset_btn_i se = reset_btn_i s"
    using lcd_show_trace [of "Some ''Powering off...''" "Some []" True sd] bl sd
    by (simp_all add: se_def)
  have sg: "trace sg = trace se @ [Sleep 2.0, LcdClear]"
      "interaction_pending sg = 0" "interaction_count sg = interaction_count s"
      "nvm sg = count_bytes s @ drop 4 (nvm s)" "\<not> amp_en sg"
      "reset_btn sg = reset_btn s" "reset_btn_i sg = reset_btn_i s"
    using se by (simp_all add: sg_def sf_def sleep_def lcd_clear_def emit_def)
  obtain e3 where e3: "trace s1 = trace sg @ e3" "list_all lcd_event e3"
    using set_backlight_trace [of False sg] by (auto simp: s1_def)
  note bb = blank_display_fields [OF set_backlight_blank [of False sg, folded s1_def]]
  have fin: "interaction_pending s1 = 0" "interaction_count s1 = interaction_count s"
      "nvm s1 = count_bytes s @ drop 4 (nvm s)" "\<not> amp_en s1"
      "reset_btn s1 = reset_btn s" "reset_btn_i s1 = reset_btn_i s"
    using bb sg by simp_all
  have tr: "trace s1 = trace s @ [NvmWrite (count_bytes s), AmpEn False]
      @ (e1 @ new_events sd se @ [Sleep 2.0, LcdClear] @ e3)"
    using sd(1) se(1) sg(1) e3(1) by simp
  have q: "list_all quiet (e1 @ new_events sd se @ [Sleep 2.0, LcdClear] @ e3)"
    using list_all_lcd_quiet [OF se(2)] list_all_lcd_quiet [OF e3(2)] by (simp add: e1_def)
  from po tr q fin show ?thesis by blast
qed

lemma wait_release_Some:
  "wait_release n s = Some s1 \<Longrightarrow>
     \<exists>evs. trace s1 = trace s @ evs \<and> list_all quiet evs
       \<and> interaction_pending s1 = interaction_pending s
       \<and> interaction_count s1 = interaction_count s
       \<and> nvm s1 = nvm s \<and> amp_en s1 = amp_en s"
proof (induction n arbitrary: s)
  case 0
  then show ?case by simp
next
  case (Suc n)
  define sa where "sa = snd (start_pressed s)"
  show ?case
  proof (cases "fst (start_pressed s)")
    case False
    then have "s1 = sa"
      using Suc.prems by (simp add: split_def sa_def)
    then have "trace s1 = trace s @ []" "interaction_pending s1 = interaction_pending s"
        "interaction_count s1 = interaction_count s" "nvm s1 = nvm s" "amp_en s1 = amp_en s"
      by (simp_all add: sa_def start_pressed_def)
    moreover have "list_all quiet []"
      by simp
    ultimately show ?thesis
      by blast
  next
    case True
    then have "wait_release n (sleep 0.01 sa) = Some s1"
      using Suc.prems by (simp add: split_def sa_def)
    from Suc.IH [OF this] obtain evs where
      evs: "trace s1 = trace (sleep 0.01 sa) @ evs" "list_all quiet evs"
        "interaction_pending s1 = interaction_pending (sleep 0.01 sa)"
        "interaction_count s1 = interaction_count (sleep 0.01 sa)"
        "nvm s1 = nvm (sleep 0.01 sa)" "amp_en s1 = amp_en (sleep 0.01 sa)"
      by blast
    have "trace s1 = trace s @ (Sleep 0.01 # evs)" "list_all quiet (Sleep 0.01 # evs)"
        "interaction_pending s1 = interaction_pending s"
        "interaction_count s1 = interaction_count s" "nvm s1 = nvm s" "amp_en s1 = amp_en s"
      using evs by (simp_all add: sa_def start_pressed_def sleep_def)
    then show ?thesis
      by blast
  qed
qed

lemma wait_release_returns:
  "reset_btn s (reset_btn_i s + k) \<Longrightarrow> k < n \<Longrightarrow> wait_release n s \<noteq> None"
proof (induction n arbitrary: s k)
  case 0
  then show ?case by simp
next
  case (Suc n)
  show ?case
  proof (cases "fst (start_pressed s)")
    case False
    then show ?thesis by (simp add: split_def)
  next
    case True
    have "k \<noteq> 0"
    proof
      assume "k = 0"
      with Suc.prems(1) True show False
        by (simp add: start_pressed_def)
    qed
    then obtain j where j: "k = Suc j"
      by (cases k) simp_all
    have "reset_btn (sleep 0.01 (snd (start_pressed s)))
        (reset_btn_i (sleep 0.01 (snd (start_pressed s))) + j)"
      using Suc.prems(1) j by (simp add: start_pressed_def sleep_def)
    from Suc.IH [OF this] Suc.prems(2) j True show ?thesis
      by (simp add: split_def)
  qed
qed

lemma power_off_effect:
  assumes "0 \<le> interaction_count s" "interaction_count s < 4294967296"
  shows "case power_off fuel s of
           None \<Rightarrow> True
         | Some (Inl x) \<Rightarrow> False
         | Some (Inr s1) \<Rightarrow>
             (\<exists>evs. trace s1 = trace s @ [NvmWrite (count_bytes s), AmpEn False] @ evs
                \<and> list_all quiet evs)
             \<and> interaction_pending s1 = 0 \<and> interaction_count s1 = interaction_count s
             \<and> nvm s1 = count_bytes s @ drop 4 (nvm s) \<and> \<not> amp_en s1
             \<and> last (trace s1) = DeepSleep"
proof -
  from power_off_shutdown_effect [OF assms] obtain sa e1 where
    sa: "power_off_shutdown s = Inr sa"
      "trace sa = trace s @ [NvmWrite (count_bytes s), AmpEn False] @ e1"
      "list_all quiet e1" "interaction_pending sa = 0"
      "interaction_count sa = interaction_count s"
      "nvm sa = count_bytes s @ drop 4 (nvm s)" "\<not> amp_en sa"
    by blast
  show ?thesis
  proof (cases "wait_release fuel sa")
    case None
    then show ?thesis by (simp add: power_off_def sa(1))
  next
    case (Some sb)
    from wait_release_Some [OF Some] obtain e2 where
      e2: "trace sb = trace sa @ e2" "list_all quiet e2"
        "interaction_pending sb = interaction_pending sa"
        "interaction_count sb = interaction_count sa" "nvm sb = nvm sa" "amp_en sb = amp_en sa"
      by blast
    define s1 where "s1 = emit DeepSleep (sleep 0.1 sb)"
    have po: "power_off fuel s = Some (Inr s1)"
      by (simp add: power_off_def sa(1) Some s1_def)
    have tr: "trace s1 = trace s @ [NvmWrite (count_bytes s), AmpEn False]
        @ (e1 @ e2 @ [Sleep 0.1, DeepSleep])"
      using sa(2) e2(1) by (simp add: s1_def emit_def sleep_def)
    have q: "list_all quiet (e1 @ e2 @ [Sleep 0.1, DeepSleep])"
      using sa(3) e2(2) by simp
    have f: "interaction_pending s1 = 0" "interaction_count s1 = interaction_count s"
        "nvm s1 = count_bytes s @ drop 4 (nvm s)" "\<not> amp_en s1" "last (trace s1) = DeepSleep"
      using sa e2 by (simp_all add: s1_def emit_def sleep_def)
    from tr q have "\<exists>evs. trace s1 = trace s @ [NvmWrite (count_bytes s), AmpEn False] @ evs
                \<and> list_all quiet evs"
      by blast
    with f show ?thesis
      by (simp add: po)
  qed
qed

lemma powered_off_flushedI:
  assumes "0 \<le> interaction_count s" "interaction_count s < 4294967296"
    and "trace s1 = trace s @ pre @ [NvmWrite (count_bytes s), AmpEn False] @ evs"
    and "list_all (\<lambda>e. quiet e \<or> e = NvmWrite (count_bytes s)) pre" "list_all quiet evs"
    and "interaction_pending s1 = 0" "interaction_count s1 = interaction_count s"
    and "nvm s1 = count_bytes s @ rest" "\<not> amp_en s1"
  shows "powered_off_flushed s s1"
proof -
  have ne: "new_events s s1 = pre @ [NvmWrite (count_bytes s), AmpEn False] @ evs"
    by (simp add: new_events_def assms(3))
  have pre: "\<And>fl ys. flushed_at_amp_off (count_bytes s) fl (pre @ NvmWrite (count_bytes s) # ys)
      = flushed_at_amp_off (count_bytes s) True ys"
    using assms(4)
  proof (induction pre)
    case Nil
    then show ?case by simp
  next
    case (Cons x xs)
    then show ?case by (cases x) auto
  qed
  have fl: "flushed_at_amp_off (count_bytes s) False (new_events s s1)"
    using pre [of False "AmpEn False # evs"] flushed_quiet [OF assms(5)] by (simp add: ne)
  have t4: "take 4 (nvm s1) = count_bytes s"
    using save_count_bytes(2) [OF assms(1,2)] by (simp add: assms(8))
  have fb: "from_bytes_little (take 4 (nvm s1)) = interaction_count s1"
    using save_count_bytes(3) [OF assms(1,2)] by (simp add: t4 assms(7))
  show ?thesis
    unfolding powered_off_flushed_def
    using fl t4 fb assms(3,6,7,9) by (simp add: ne)
qed

lemma flushed_mono:
  "flushed_at_amp_off bs False ys \<Longrightarrow> flushed_at_amp_off bs fl ys"
proof (induction ys arbitrary: fl)
  case Nil
  then show ?case by simp
next
  case (Cons y ys)
  then show ?case by (cases y) auto
qed

lemma flushed_prefix:
  assumes "list_all (\<lambda>e. quiet e \<or> e = NvmWrite bs) pre" "flushed_at_amp_off bs False ys"
  shows "flushed_at_amp_off bs fl (pre @ ys)"
  using assms(1)
proof (induction pre arbitrary: fl)
  case Nil
  then show ?case using flushed_mono [OF assms(2)] by simp
next
  case (Cons x xs)
  then show ?case by (cases x) auto
qed

lemma count_bytes_cong:
  "interaction_count s1 = interaction_count s \<Longrightarrow> count_bytes s1 = count_bytes s"
  by (simp add: count_bytes_def)

lemma powered_off_flushed_prefix:
  assumes "trace sa = trace s @ pre" "list_all (\<lambda>e. quiet e \<or> e = NvmWrite (count_bytes s)) pre"
    and "interaction_count sa = interaction_count s" "powered_off_flushed sa s1"
  shows "powered_off_flushed s s1"
proof -
  define ys where "ys = new_events sa s1"
  have cb: "count_bytes sa = count_bytes s"
    by (rule count_bytes_cong [OF assms(3)])
  have p: "trace s1 = trace sa @ ys" "flushed_at_amp_off (count_bytes s) False ys"
      "AmpEn False \<in> set ys" "\<not> amp_en s1" "interaction_pending s1 = 0"
      "interaction_count s1 = interaction_count s" "take 4 (nvm s1) = count_bytes s"
      "from_bytes_little (take 4 (nvm s1)) = interaction_count s1"
    using assms(3,4) unfolding powered_off_flushed_def cb ys_def by metis+
  have ne: "new_events s s1 = pre @ ys"
    by (simp add: new_events_def p(1) assms(1))
  have fl: "flushed_at_amp_off (count_bytes s) False (pre @ ys)"
    by (rule flushed_prefix [OF assms(2) p(2)])
  show ?thesis
    unfolding powered_off_flushed_def ne
    using fl p assms(1) by simp
qed

lemma power_off_flushed:
  assumes "0 \<le> interaction_count s" "interaction_count s < 4294967296"
  shows "case power_off fuel s of
           None \<Rightarrow> True
         | Some (Inl x) \<Rightarrow> False
         | Some (Inr s1) \<Rightarrow> powered_off_flushed s s1 \<and> last (trace s1) = DeepSleep
             \<and> take 2 (new_events s s1) = [NvmWrite (count_bytes s), AmpEn False]"
proof (cases "power_off fuel s")
  case None
  then show ?thesis by simp
next
  case (Some r)
  show ?thesis
  proof (cases r)
    case (Inl x)
    with Some power_off_effect [OF assms, of fuel] show ?thesis by simp
  next
    case (Inr s1)
    with Some power_off_effect [OF assms, of fuel] obtain evs where
      e: "trace s1 = trace s @ [NvmWrite (count_bytes s), AmpEn False] @ evs" "list_all quiet evs"
        "interaction_pending s1 = 0" "interaction_count s1 = interaction_count s"
        "nvm s1 = count_bytes s @ drop 4 (nvm s)" "\<not> amp_en s1" "last (trace s1) = DeepSleep"
      by auto
    have "powered_off_flushed s s1"
      using powered_off_flushedI [OF assms, of s1 "[]" evs "drop 4 (nvm s)"] e by simp
    moreover have "take 2 (new_events s s1) = [NvmWrite (count_bytes s), AmpEn False]"
      by (simp add: new_events_def e(1))
    ultimately show ?thesis
      using Some Inr e(7) by simp
  qed
qed

lemma power_off_shutdown_flushed:
  assumes "0 \<le> interaction_count s" "interaction_count s < 4294967296"
  shows "case power_off_shutdown s of
           Inl x \<Rightarrow> False
         | Inr s1 \<Rightarrow> powered_off_flushed s s1
             \<and> take 2 (new_events s s1) = [NvmWrite (count_bytes s), AmpEn False]"
proof -
  from power_off_shutdown_effect [OF assms] obtain s1 evs where
    e: "power_off_shutdown s = Inr s1"
      "trace s1 = trace s @ [NvmWrite (count_bytes s), AmpEn False] @ evs" "list_all quiet evs"
      "interaction_pending s1 = 0" "interaction_count s1 = interaction_count s"
      "nvm s1 = count_bytes s @ drop 4 (nvm s)" "\<not> amp_en s1"
    by blast
  have "powered_off_flushed s s1"
    using powered_off_flushedI [OF assms, of s1 "[]" evs "drop 4 (nvm s)"] e by simp
  moreover have "take 2 (new_events s s1) = [NvmWrite (count_bytes s), AmpEn False]"
    by (simp add: new_events_def e(2))
  ultimately show ?thesis by (simp add: e(1))
qed

lemma bat_sample_loop_frame:
  "\<exists>evs. trace (snd (bat_sample_loop n acc s)) = trace s @ evs \<and> list_all quiet evs
     \<and> interaction_count (snd (bat_sample_loop n acc s)) = interaction_count s
     \<and> reset_btn (snd (bat_sample_loop n acc s)) = reset_btn s
     \<and> reset_btn_i (snd (bat_sample_loop n acc s)) = reset_btn_i s"
proof (induction n arbitrary: acc s)
  case 0
  have "trace s = trace s @ []" "list_all quiet []"
    by simp_all
  then show ?case by (metis bat_sample_loop.simps(1) snd_conv)
next
  case (Suc n)
  define sa where "sa = sleep 0.001 (snd (bat_adc_read s))"
  from Suc [of "acc + fst (bat_adc_read s)" sa] obtain evs where
    evs: "trace (snd (bat_sample_loop n (acc + fst (bat_adc_read s)) sa)) = trace sa @ evs"
      "list_all quiet evs"
      "interaction_count (snd (bat_sample_loop n (acc + fst (bat_adc_read s)) sa)) = interaction_count sa"
      "reset_btn (snd (bat_sample_loop n (acc + fst (bat_adc_read s)) sa)) = reset_btn sa"
      "reset_btn_i (snd (bat_sample_loop n (acc + fst (bat_adc_read s)) sa)) = reset_btn_i sa"
    by blast
  have step: "bat_sample_loop (Suc n) acc s = bat_sample_loop n (acc + fst (bat_adc_read s)) sa"
    by (simp add: split_def sa_def Let_def)
  have sa: "trace sa = trace s @ [Sleep 0.001]" "interaction_count sa = interaction_count s"
      "reset_btn sa = reset_btn s" "reset_btn_i sa = reset_btn_i s"
    by (simp_all add: sa_def sleep_def bat_adc_read_def)
  have "trace (snd (bat_sample_loop (Suc n) acc s)) = trace s @ (Sleep 0.001 # evs)"
      "list_all quiet (Sleep 0.001 # evs)"
    unfolding step using evs(1,2) sa(1) by simp_all
  moreover have "interaction_count (snd (bat_sample_loop (Suc n) acc s)) = interaction_count s"
      "reset_btn (snd (bat_sample_loop (Suc n) acc s)) = reset_btn s"
      "reset_btn_i (snd (bat_sample_loop (Suc n) acc s)) = reset_btn_i s"
    unfolding step using evs(3,4,5) sa by simp_all
  ultimately show ?case by blast
qed

lemma check_low_battery_frame:
  "\<exists>evs. trace (snd (check_low_battery s)) = trace s @ evs \<and> list_all quiet evs
     \<and> interaction_count (snd (check_low_battery s)) = interaction_count s
     \<and> reset_btn (snd (check_low_battery s)) = reset_btn s
     \<and> reset_btn_i (snd (check_low_battery s)) = reset_btn_i s"
proof -
  have c: "snd (check_low_battery s) = snd (read_battery_pct s)"
    by (simp add: check_low_battery_def split_def Let_def)
  show ?thesis
  proof (cases "bat_pct_cache s \<ge> 0 \<and> clock s - bat_last_read s < BAT_UPDATE_S")
    case True
    then have "snd (read_battery_pct s) = s"
      by (simp add: read_battery_pct_def)
    moreover have "trace s = trace s @ []" "list_all quiet []"
      by simp_all
    ultimately show ?thesis unfolding c by metis
  next
    case False
    obtain evs where evs: "trace (snd (bat_sample_loop 5 0 s)) = trace s @ evs"
        "list_all quiet evs"
        "interaction_count (snd (bat_sample_loop 5 0 s)) = interaction_count s"
        "reset_btn (snd (bat_sample_loop 5 0 s)) = reset_btn s"
        "reset_btn_i (snd (bat_sample_loop 5 0 s)) = reset_btn_i s"
      using bat_sample_loop_frame [of 5 0 s] by blast
    have "trace (snd (read_battery_pct s)) = trace s @ evs"
        "interaction_count (snd (read_battery_pct s)) = interaction_count s"
        "reset_btn (snd (read_battery_pct s)) = reset_btn s"
        "reset_btn_i (snd (read_battery_pct s)) = reset_btn_i s"
      using False evs by (auto simp: read_battery_pct_def Let_def split_def)
    with evs(2) show ?thesis unfolding c by blast
  qed
qed

lemma power_off_returns:
  assumes "0 \<le> interaction_count s" "interaction_count s < 4294967296"
    and "reset_btn s (reset_btn_i s + k)" "k < n"
  shows "\<exists>s1. power_off n s = Some (Inr s1)"
proof -
  from power_off_shutdown_effect [OF assms(1,2)] obtain sa where
    sa: "power_off_shutdown s = Inr sa" "reset_btn sa = reset_btn s"
      "reset_btn_i sa = reset_btn_i s"
    by blast
  have "wait_release n sa \<noteq> None"
    using wait_release_returns [of sa k n] assms(3,4) sa(2,3) by simp
  then show ?thesis
    by (auto simp: power_off_def sa(1))
qed

lemma battery_check_critical:
  assumes "0 \<le> interaction_count s" "interaction_count s < 4294967296"
    and "fst (check_low_battery s) = Critical"
  shows "\<exists>sb pre. battery_check fuel s = power_off fuel sb
     \<and> trace sb = trace s @ pre
     \<and> list_all (\<lambda>e. quiet e \<or> e = NvmWrite (count_bytes s)) pre
     \<and> interaction_count sb = interaction_count s
     \<and> reset_btn sb = reset_btn s \<and> reset_btn_i sb = reset_btn_i s"
proof -
  define sa where "sa = snd (check_low_battery s)"
  obtain e0 where e0: "trace sa = trace s @ e0" "list_all quiet e0"
      "interaction_count sa = interaction_count s"
      "reset_btn sa = reset_btn s" "reset_btn_i sa = reset_btn_i s"
    using check_low_battery_frame [of s] unfolding sa_def by blast
  have rng: "0 \<le> interaction_count sa" "interaction_count sa < 4294967296"
    using assms(1,2) e0(3) by simp_all
  define sb where "sb = sa\<lparr>interaction_pending := 0, nvm := count_bytes sa @ drop 4 (nvm sa),
                   trace := trace sa @ [NvmWrite (count_bytes sa)]\<rparr>"
  have sv: "save_interaction_count sa = Inr sb"
    unfolding sb_def by (rule save_count_bytes(1) [OF rng])
  have cb: "count_bytes sa = count_bytes s"
    by (rule count_bytes_cong [OF e0(3)])
  have bc: "battery_check fuel s = power_off fuel sb"
    using assms(3) sv by (simp add: battery_check_def split_def sa_def Let_def)
  have tr: "trace sb = trace s @ (e0 @ [NvmWrite (count_bytes s)])"
    by (simp add: sb_def e0(1) cb)
  have q: "list_all (\<lambda>e. quiet e \<or> e = NvmWrite (count_bytes s)) (e0 @ [NvmWrite (count_bytes s)])"
    using e0(2) by (auto simp: list_all_iff)
  have f: "interaction_count sb = interaction_count s"
      "reset_btn sb = reset_btn s" "reset_btn_i sb = reset_btn_i s"
    using e0(3,4,5) by (simp_all add: sb_def)
  from bc tr q f show ?thesis by blast
qed

lemma battery_check_flushed:
  assumes "0 \<le> interaction_count s" "interaction_count s < 4294967296"
    and "fst (check_low_battery s) = Critical"
  shows "case battery_check fuel s of
           None \<Rightarrow> True
         | Some (Inl x) \<Rightarrow> False
         | Some (Inr s1) \<Rightarrow> powered_off_flushed s s1 \<and> last (trace s1) = DeepSleep"
proof -
  from battery_check_critical [OF assms, of fuel] obtain sb pre where
    sb: "battery_check fuel s = power_off fuel sb" "trace sb = trace s @ pre"
      "list_all (\<lambda>e. quiet e \<or> e = NvmWrite (count_bytes s)) pre"
      "interaction_count sb = interaction_count s"
    by blast
  have rng: "0 \<le> interaction_count sb" "interaction_count sb < 4294967296"
    using assms(1,2) sb(4) by simp_all
  show ?thesis
  proof (cases "power_off fuel sb")
    case None
    then show ?thesis by (simp add: sb(1))
  next
    case (Some r)
    show ?thesis
    proof (cases r)
      case (Inl x)
      with Some power_off_flushed [OF rng, of fuel] show ?thesis by simp
    next
      case (Inr s1)
      with Some power_off_flushed [OF rng, of fuel] have
        p: "powered_off_flushed sb s1" "last (trace s1) = DeepSleep"
        by simp_all
      from powered_off_flushed_prefix [OF sb(2,3,4) p(1)] p(2) Some Inr show ?thesis
        by (simp add: sb(1))
    qed
  qed
qed

lemma battery_check_returns:
  assumes "0 \<le> interaction_count s" "interaction_count s < 4294967296"
    and "fst (check_low_battery s) = Critical"
    and "reset_btn s (reset_btn_i s + k)" "k < n"
  shows "\<exists>s1. battery_check n s = Some (Inr s1)"
proof -
  from battery_check_critical [OF assms(1,2,3), of n] obtain sb where
    sb: "battery_check n s = power_off n sb" "interaction_count sb = interaction_count s"
      "reset_btn sb = reset_btn s" "reset_btn_i sb = reset_btn_i s"
    by blast
  have rng: "0 \<le> interaction_count sb" "interaction_count sb < 4294967296"
    using assms(1,2) sb(2) by simp_all
  have "reset_btn sb (reset_btn_i sb + k)"
    using assms(4) sb(3,4) by simp
  from power_off_returns [OF rng this assms(5)] show ?thesis
    by (simp add: sb(1))
qed

lemma hold_loop_flushed:
  assumes "0 \<le> interaction_count s" "interaction_count s < 4294967296"
  shows "case hold_loop n ps s of
           None \<Rightarrow> True
         | Some (Inl x) \<Rightarrow> False
         | Some (Inr (ShortPress s1)) \<Rightarrow>
             (\<exists>evs. trace s1 = trace s @ evs \<and> list_all quiet evs)
         | Some (Inr (PoweredOff s1)) \<Rightarrow> powered_off_flushed s s1"
  using assms
proof (induction n arbitrary: s)
  case 0
  then show ?case by simp
next
  case (Suc n)
  define sa where "sa = snd (start_pressed s)"
  have sa: "trace sa = trace s" "interaction_count sa = interaction_count s"
    by (simp_all add: sa_def start_pressed_def)
  have rng: "0 \<le> interaction_count sa" "interaction_count sa < 4294967296"
    using Suc.prems sa(2) by simp_all
  show ?case
  proof (cases "fst (start_pressed s)")
    case False
    have "trace sa = trace s @ []" "list_all quiet []"
      using sa(1) by simp_all
    then have "\<exists>evs. trace sa = trace s @ evs \<and> list_all quiet evs"
      by blast
    moreover have "hold_loop (Suc n) ps s = Some (Inr (ShortPress sa))"
      using False by (simp add: split_def sa_def)
    ultimately show ?thesis
      by simp
  next
    case True
    show ?thesis
    proof (cases "clock sa - ps \<ge> POWER_OFF_HOLD_S")
      case hold: True
      have h: "hold_loop (Suc n) ps s =
          (case power_off n sa of
              None \<Rightarrow> None
            | Some (Inl e) \<Rightarrow> Some (Inl e)
            | Some (Inr s2) \<Rightarrow> Some (Inr (PoweredOff s2)))"
        using True hold by (simp add: split_def sa_def)
      have pre: "trace sa = trace s @ []"
          "list_all (\<lambda>e. quiet e \<or> e = NvmWrite (count_bytes s)) []"
        using sa(1) by simp_all
      show ?thesis
      proof (cases "power_off n sa")
        case None
        then show ?thesis unfolding h by simp
      next
        case (Some r)
        show ?thesis
        proof (cases r)
          case (Inl x)
          with Some power_off_flushed [OF rng, of n] show ?thesis by simp
        next
          case (Inr s1)
          with Some power_off_flushed [OF rng, of n] have "powered_off_flushed sa s1"
            by simp
          from powered_off_flushed_prefix [OF pre sa(2) this] Some Inr show ?thesis
            unfolding h by simp
        qed
      qed
    next
      case False
      define sb where "sb = sleep 0.01 sa"
      have h: "hold_loop (Suc n) ps s = hold_loop n ps sb"
        using True False by (simp add: split_def sa_def sb_def)
      have sb: "trace sb = trace s @ [Sleep 0.01]" "interaction_count sb = interaction_count s"
        using sa by (simp_all add: sb_def sleep_def)
      have rngb: "0 \<le> interaction_count sb" "interaction_count sb < 4294967296"
        using Suc.prems sb(2) by simp_all
      have q: "list_all (\<lambda>e. quiet e \<or> e = NvmWrite (count_bytes s)) [Sleep 0.01]"
        by simp
      note ih = Suc.IH [OF rngb]
      show ?thesis
      proof (cases "hold_loop n ps sb")
        case None
        then show ?thesis unfolding h by simp
      next
        case (Some r)
        show ?thesis
        proof (cases r)
          case (Inl x)
          with Some ih show ?thesis by simp
        next
          case (Inr hd)
          show ?thesis
          proof (cases hd)
            case (ShortPress s1)
            with Some Inr ih obtain evs where "trace s1 = trace sb @ evs" "list_all quiet evs"
              by auto
            then have "trace s1 = trace s @ (Sleep 0.01 # evs)" "list_all quiet (Sleep 0.01 # evs)"
              using sb(1) by simp_all
            then have "\<exists>evs. trace s1 = trace s @ evs \<and> list_all quiet evs"
              by blast
            with Some Inr ShortPress show ?thesis
              unfolding h by simp
          next
            case (PoweredOff s1)
            with Some Inr ih have "powered_off_flushed sb s1"
              by simp
            from powered_off_flushed_prefix [OF sb(1) q sb(2) this] Some Inr PoweredOff
            show ?thesis
              unfolding h by simp
          qed
        qed
      qed
    qed
  qed
qed

lemma hold_loop_powers_off:
  assumes "0 \<le> interaction_count s" "interaction_count s < 4294967296"
    and "\<not> reset_btn s (reset_btn_i s)" "clock s - ps \<ge> POWER_OFF_HOLD_S"
    and "reset_btn s (reset_btn_i s + 1 + k)"
  shows "\<exists>s1. hold_loop (Suc (Suc k)) ps s = Some (Inr (PoweredOff s1))"
proof -
  define sa where "sa = snd (start_pressed s)"
  have sa: "interaction_count sa = interaction_count s" "clock sa = clock s"
      "reset_btn sa = reset_btn s" "reset_btn_i sa = Suc (reset_btn_i s)"
    by (simp_all add: sa_def start_pressed_def)
  have rng: "0 \<le> interaction_count sa" "interaction_count sa < 4294967296"
    using assms(1,2) sa(1) by simp_all
  have "reset_btn sa (reset_btn_i sa + k)"
    using assms(5) sa(3,4) by simp
  from power_off_returns [OF rng this, of "Suc k"] obtain s1 where
    "power_off (Suc k) sa = Some (Inr s1)"
    by auto
  moreover have "hold_loop (Suc (Suc k)) ps s =
          (case power_off (Suc k) sa of
              None \<Rightarrow> None
            | Some (Inl e) \<Rightarrow> Some (Inl e)
            | Some (Inr s2) \<Rightarrow> Some (Inr (PoweredOff s2)))"
    using assms(3,4) sa(2) by (simp add: split_def sa_def start_pressed_def)
  ultimately show ?thesis
    by simp
qed

lemma poked_dev_facts:
  "0 \<le> interaction_count poked_dev" "interaction_count poked_dev < 2 ^ 32"
  "interaction_pending poked_dev = 3" "reset_btn poked_dev (reset_btn_i poked_dev + 0)"
  "count_bytes poked_dev = [53, 0, 0, 0]" "take 4 (nvm poked_dev) = [50, 0, 0, 0]"
  "amp_en poked_dev"
  by (simp_all add: poked_dev_def fresh_dev_def initial_dev_def count_bytes_def
      to_bytes_little_def upt_rec)

lemma poked_dev_critical: "fst (check_low_battery poked_dev) = Critical"
  by (simp add: poked_dev_def fresh_dev_def initial_dev_def check_low_battery_def
      read_battery_pct_def eval_nat_numeral bat_adc_read_def sleep_def Let_def split_def
      bat_pct_of_total_def BAT_DIVIDER_def BAT_EMPTY_V_def BAT_FULL_V_def py_int_def
      BAT_CRIT_PCT_def BAT_UPDATE_S_def)

text \<open>
  C5. For a counter within 32 bits and any pending count, in particular one below the
  threshold. \<^verbatim>\<open>power_off\<close> first stores the counter, then disables the amplifier: these
  are the first two events it adds, whether or not the wait for the button that follows
  ever ends. Whenever \<^verbatim>\<open>power_off\<close>, the critical-battery branch or the long hold of
  the button reaches the deep sleep, the amplifier was disabled only after a write of the
  counter's bytes with no other write in between, nothing is pending, and the store
  decodes to the counter; none of them raises. A short press does not disable the
  amplifier. When the button is released at some later read, \<^verbatim>\<open>power_off\<close> and the
  critical-battery branch do reach the deep sleep, and so does a hold that has lasted the
  five seconds.
\<close>

theorem C5_flush_before_power_off:
  assumes "0 \<le> interaction_count s" and "interaction_count s < 2 ^ 32"
  shows "(case power_off_shutdown s of
            Inl x \<Rightarrow> False
          | Inr s1 \<Rightarrow> powered_off_flushed s s1
              \<and> take 2 (new_events s s1) = [NvmWrite (count_bytes s), AmpEn False])
       \<and> (case power_off fuel s of
            None \<Rightarrow> True
          | Some (Inl x) \<Rightarrow> False
          | Some (Inr s1) \<Rightarrow> powered_off_flushed s s1 \<and> last (trace s1) = DeepSleep
              \<and> take 2 (new_events s s1) = [NvmWrite (count_bytes s), AmpEn False])
       \<and> (fst (check_low_battery s) = Critical \<longrightarrow>
            (case battery_check fuel s of
               None \<Rightarrow> True
             | Some (Inl x) \<Rightarrow> False
             | Some (Inr s1) \<Rightarrow> powered_off_flushed s s1 \<and> last (trace s1) = DeepSleep))
       \<and> (case hold_loop fuel ps s of
            None \<Rightarrow> True
          | Some (Inl x) \<Rightarrow> False
          | Some (Inr (ShortPress s1)) \<Rightarrow> AmpEn False \<notin> set (new_events s s1)
          | Some (Inr (PoweredOff s1)) \<Rightarrow> powered_off_flushed s s1)
       \<and> (reset_btn s (reset_btn_i s + k) \<longrightarrow>
            (\<exists>s1. power_off (Suc k) s = Some (Inr s1))
            \<and> (fst (check_low_battery s) = Critical \<longrightarrow>
                 (\<exists>s1. battery_check (Suc k) s = Some (Inr s1))))
       \<and> (\<not> reset_btn s (reset_btn_i s) \<and> clock s - ps \<ge> POWER_OFF_HOLD_S
            \<and> reset_btn s (reset_btn_i s + 1 + k) \<longrightarrow>
            (\<exists>s1. hold_loop (Suc (Suc k)) ps s = Some (Inr (PoweredOff s1))))"
proof -
  have rng: "0 \<le> interaction_count s" "interaction_count s < 4294967296"
    using assms by simp_all
  have h: "case hold_loop fuel ps s of
            None \<Rightarrow> True
          | Some (Inl x) \<Rightarrow> False
          | Some (Inr (ShortPress s1)) \<Rightarrow> AmpEn False \<notin> set (new_events s s1)
          | Some (Inr (PoweredOff s1)) \<Rightarrow> powered_off_flushed s s1"
  proof (cases "hold_loop fuel ps s")
    case None
    then show ?thesis by simp
  next
    case (Some r)
    show ?thesis
    proof (cases r)
      case (Inl x)
      with Some hold_loop_flushed [OF rng, of fuel ps] show ?thesis by simp
    next
      case (Inr hd)
      show ?thesis
      proof (cases hd)
        case (ShortPress s1)
        with Some Inr hold_loop_flushed [OF rng, of fuel ps] obtain evs where
          "trace s1 = trace s @ evs" "list_all quiet evs"
          by auto
        then have "AmpEn False \<notin> set (new_events s s1)"
          by (auto simp: new_events_def list_all_iff)
        with Some Inr ShortPress show ?thesis by simp
      next
        case (PoweredOff s1)
        with Some Inr hold_loop_flushed [OF rng, of fuel ps] show ?thesis by simp
      qed
    qed
  qed
  have r1: "reset_btn s (reset_btn_i s + k) \<longrightarrow>
            (\<exists>s1. power_off (Suc k) s = Some (Inr s1))
            \<and> (fst (check_low_battery s) = Critical \<longrightarrow>
                 (\<exists>s1. battery_check (Suc k) s = Some (Inr s1)))"
    using power_off_returns [OF rng, of k "Suc k"] battery_check_returns [OF rng, of k "Suc k"]
    by simp
  have r2: "\<not> reset_btn s (reset_btn_i s) \<and> clock s - ps \<ge> POWER_OFF_HOLD_S
            \<and> reset_btn s (reset_btn_i s + 1 + k) \<longrightarrow>
            (\<exists>s1. hold_loop (Suc (Suc k)) ps s = Some (Inr (PoweredOff s1)))"
    using hold_loop_powers_off [OF rng, of ps k] by blast
  have b: "fst (check_low_battery s) = Critical \<longrightarrow>
            (case battery_check fuel s of
               None \<Rightarrow> True
             | Some (Inl x) \<Rightarrow> False
             | Some (Inr s1) \<Rightarrow> powered_off_flushed s s1 \<and> last (trace s1) = DeepSleep)"
    using battery_check_flushed [OF rng, of fuel] by blast
  from power_off_shutdown_flushed [OF rng] power_off_flushed [OF rng, of fuel] b h r1 r2
  show ?thesis
    by blast
qed

theorem C5_flush_before_power_off_witness:
  "0 \<le> interaction_count poked_dev \<and> interaction_count poked_dev < 2 ^ 32
   \<and> interaction_pending poked_dev = 3 \<and> amp_en poked_dev
   \<and> take 4 (nvm poked_dev) = [50, 0, 0, 0]
   \<and> reset_btn poked_dev (reset_btn_i poked_dev + 0)
   \<and> fst (check_low_battery poked_dev) = Critical
   \<and> (case power_off 1 poked_dev of
         None \<Rightarrow> False
       | Some (Inl x) \<Rightarrow> False
       | Some (Inr s1) \<Rightarrow> take 4 (nvm s1) = [53, 0, 0, 0] \<and> interaction_pending s1 = 0
           \<and> \<not> amp_en s1
           \<and> take 2 (new_events poked_dev s1) = [NvmWrite [53, 0, 0, 0], AmpEn False])
   \<and> (case battery_check 1 poked_dev of
         None \<Rightarrow> False
       | Some (Inl x) \<Rightarrow> False
       | Some (Inr s1) \<Rightarrow> take 4 (nvm s1) = [53, 0, 0, 0] \<and> interaction_pending s1 = 0
           \<and> \<not> amp_en s1)"
proof -
  note inst = C5_flush_before_power_off [OF poked_dev_facts(1,2), of 1 "0" 0]
  from inst poked_dev_facts(4) obtain s1 where s1: "power_off 1 poked_dev = Some (Inr s1)"
    by auto
  from inst poked_dev_facts(4) poked_dev_critical obtain s2 where
    s2: "battery_check 1 poked_dev = Some (Inr s2)"
    by auto
  have p1: "powered_off_flushed poked_dev s1"
    using inst s1 by simp
  have p2: "powered_off_flushed poked_dev s2"
    using inst s2 poked_dev_critical by simp
  have a: "take 4 (nvm s1) = [53, 0, 0, 0]" "interaction_pending s1 = 0" "\<not> amp_en s1"
    using p1 poked_dev_facts(5) by (simp_all add: powered_off_flushed_def)
  have b: "take 4 (nvm s2) = [53, 0, 0, 0]" "interaction_pending s2 = 0" "\<not> amp_en s2"
    using p2 poked_dev_facts(5) by (simp_all add: powered_off_flushed_def)
  have c: "take 2 (new_events poked_dev s1) = [NvmWrite [53, 0, 0, 0], AmpEn False]"
    using inst s1 poked_dev_facts(5) by simp
  from poked_dev_facts poked_dev_critical s1 s2 a b c show ?thesis
    by simp
qed

end
